theory Spec2Isabelle
  imports Main "HOL-Library.Product_Lexorder"
begin

section \<open>The physician record (src/models.py)\<close>

text \<open>
  A \<open>Physician\<close> object is a record of its ten attributes. Python integers are unbounded,
  so the counts are \<open>int\<close>; the team is the string the source compares with
  \<open>'A'\<close>, \<open>'B'\<close> and \<open>'N'\<close>.
\<close>

record physician =
  name :: string
  is_new :: bool
  team :: string
  is_buffer :: bool
  is_working :: bool
  yesterday :: string
  total_patients :: int
  step_down_patients :: int
  transferred_patients :: int
  traded_patients :: int

text \<open>
  The ways a run can fail to return: the two exceptions of \<open>remove_patient\<close>, a missing
  dictionary key under a subscript, and a \<open>while\<close> loop that would never end.
\<close>

datatype failure = NoPatients | NoStepDownPatients | KeyError | NonTermination

text \<open>The result of a computation that can fail, passed through a function.\<close>

definition on_result :: "('a \<Rightarrow> 'b) \<Rightarrow> failure + 'a \<Rightarrow> failure + 'b" where
  "on_result f r = (case r of Inl e \<Rightarrow> Inl e | Inr x \<Rightarrow> Inr (f x))"

definition add_patient :: "bool \<Rightarrow> physician \<Rightarrow> physician" where
  "add_patient is_step_down p =
     (if is_step_down then p\<lparr>step_down_patients := step_down_patients p + 1\<rparr>
      else p\<lparr>total_patients := total_patients p + 1\<rparr>)"

definition remove_patient :: "bool \<Rightarrow> physician \<Rightarrow> failure + physician" where
  "remove_patient is_step_down p =
     (if is_step_down then
        (if step_down_patients p < 1 then Inl NoStepDownPatients
         else Inr (p\<lparr>step_down_patients := step_down_patients p - 1\<rparr>))
      else
        (if total_patients p < 1 then Inl NoPatients
         else Inr (p\<lparr>total_patients := total_patients p - 1\<rparr>)))"

definition set_total_patients :: "int \<Rightarrow> physician \<Rightarrow> physician" where
  "set_total_patients n p = p\<lparr>total_patients := n\<rparr>"

section \<open>Dictionaries keyed by name\<close>

text \<open>
  A dict comprehension over the roster keeps, for a name that occurs twice, the value of
  the last occurrence: the map of the reversed list of pairs. \<open>d.get(k, v)\<close> is
  \<open>dict_get\<close>; the subscript \<open>d[k]\<close> raises \<open>KeyError\<close> on a missing key.
\<close>

type_synonym dict = "string \<Rightarrow> int option"

definition dict_of :: "(string \<times> int) list \<Rightarrow> dict" where
  "dict_of kvs = map_of (rev kvs)"

definition dict_get :: "dict \<Rightarrow> string \<Rightarrow> int \<Rightarrow> int" where
  "dict_get d k dflt = (case d k of None \<Rightarrow> dflt | Some v \<Rightarrow> v)"

definition dict_sub :: "dict \<Rightarrow> string \<Rightarrow> failure + int" where
  "dict_sub d k = (case d k of None \<Rightarrow> Inl KeyError | Some v \<Rightarrow> Inr v)"

section \<open>The allocator's state (src/allocation.py)\<close>

text \<open>
  The mutable variables of \<open>allocate_patients\<close>: the roster, whose objects are mutated in
  place, and the five pool counters. The team lists and the sorted lists of the source
  hold references to the roster's objects; here they are lists of positions in the
  roster, and a mutation of an object is an update of the roster at its position. The
  entries of a roster are distinct objects, also when two of them carry the same name.
\<close>

record alloc_state =
  physicians :: "physician list"
  n_total_new_patients :: int
  n_A_new_patients :: int
  n_B_new_patients :: int
  n_N_new_patients :: int
  n_step_down_patients :: int

definition initial_counts :: "physician list \<Rightarrow> dict" where
  "initial_counts ps = dict_of (map (\<lambda>p. (name p, total_patients p)) ps)"

definition initial_stepdown_counts :: "physician list \<Rightarrow> dict" where
  "initial_stepdown_counts ps = dict_of (map (\<lambda>p. (name p, step_down_patients p)) ps)"

definition team_members :: "string \<Rightarrow> physician list \<Rightarrow> nat list" where
  "team_members t ps = filter (\<lambda>i. team (ps ! i) = t) [0..<length ps]"

definition can_take_patient :: "int \<Rightarrow> physician \<Rightarrow> bool" where
  "can_take_patient maximum_patients p \<longleftrightarrow> total_patients p < maximum_patients"

definition can_take_step_down :: "dict \<Rightarrow> physician \<Rightarrow> bool" where
  "can_take_step_down isd p =
     (let initial_sd = dict_get isd (name p) 0;
          gained_stepdown = step_down_patients p - initial_sd
      in gained_stepdown < 1)"

subsection \<open>Phase 1: step-down allocation\<close>

text \<open>
  \<open>physician.add_patient(is_step_down=True); n_step_down_patients -= 1\<close> for the
  physician at position \<open>i\<close>.
\<close>

definition give_step_down :: "nat \<Rightarrow> alloc_state \<Rightarrow> alloc_state" where
  "give_step_down i s =
     s\<lparr>physicians := (physicians s)[i := add_patient True (physicians s ! i)],
       n_step_down_patients := n_step_down_patients s - 1\<rparr>"

fun step_down_loop :: "dict \<Rightarrow> nat list \<Rightarrow> alloc_state \<Rightarrow> alloc_state" where
  "step_down_loop isd [] s = s"
| "step_down_loop isd (i # js) s =
     (if n_step_down_patients s \<le> 0 then s
      else if can_take_step_down isd (physicians s ! i)
      then step_down_loop isd js (give_step_down i s)
      else step_down_loop isd js s)"

definition stepdown_key :: "dict \<Rightarrow> physician list \<Rightarrow> nat \<Rightarrow> int" where
  "stepdown_key isd ps i = dict_get isd (name (ps ! i)) (step_down_patients (ps ! i))"

definition phase1 :: "dict \<Rightarrow> nat list \<Rightarrow> nat list \<Rightarrow> alloc_state \<Rightarrow> alloc_state" where
  "phase1 isd team_A team_B s =
     (let ps = physicians s;
          working_team_B = filter (\<lambda>i. is_working (ps ! i)) team_B;
          working_team_A = filter (\<lambda>i. is_working (ps ! i)) team_A;
          team_B_sorted = sort_key (stepdown_key isd ps) working_team_B;
          s1 = step_down_loop isd team_B_sorted s
      in if n_step_down_patients s1 > 0
         then step_down_loop isd
                (sort_key (stepdown_key isd (physicians s1)) working_team_A) s1
         else s1)"

subsection \<open>Taking one unit from a team pool\<close>

text \<open>
  The block \<open>physician.add_patient(); n_X_new_patients -= 1; n_total_new_patients -= 1\<close>,
  which the source writes out for each of the pools A, B and N.
\<close>

datatype pool = PoolA | PoolB | PoolN

fun pool_count :: "pool \<Rightarrow> alloc_state \<Rightarrow> int" where
  "pool_count PoolA s = n_A_new_patients s"
| "pool_count PoolB s = n_B_new_patients s"
| "pool_count PoolN s = n_N_new_patients s"

fun pool_decrement :: "pool \<Rightarrow> alloc_state \<Rightarrow> alloc_state" where
  "pool_decrement PoolA s = s\<lparr>n_A_new_patients := n_A_new_patients s - 1\<rparr>"
| "pool_decrement PoolB s = s\<lparr>n_B_new_patients := n_B_new_patients s - 1\<rparr>"
| "pool_decrement PoolN s = s\<lparr>n_N_new_patients := n_N_new_patients s - 1\<rparr>"

definition take_from :: "pool \<Rightarrow> nat \<Rightarrow> alloc_state \<Rightarrow> alloc_state" where
  "take_from pl i s =
     (pool_decrement pl
        (s\<lparr>physicians := (physicians s)[i := add_patient False (physicians s ! i)]\<rparr>))
     \<lparr>n_total_new_patients := n_total_new_patients s - 1\<rparr>"

subsection \<open>Phase 2: fix below-minimum physicians\<close>

text \<open>\<open>for _ in range(k)\<close> with the \<open>break\<close> when the physician is full.\<close>

fun fix_loop :: "int \<Rightarrow> pool \<Rightarrow> nat \<Rightarrow> nat \<Rightarrow> alloc_state \<Rightarrow> alloc_state" where
  "fix_loop maximum_patients pl i 0 s = s"
| "fix_loop maximum_patients pl i (Suc k) s =
     (if can_take_patient maximum_patients (physicians s ! i)
      then fix_loop maximum_patients pl i k (take_from pl i s)
      else s)"

definition phase2_visit :: "int \<Rightarrow> int \<Rightarrow> nat \<Rightarrow> alloc_state \<Rightarrow> alloc_state" where
  "phase2_visit minimum_patients maximum_patients i s =
     (let p = physicians s ! i; threshold = minimum_patients - 2
      in if is_new p then s
         else if total_patients p \<le> threshold \<and> can_take_patient maximum_patients p then
           (let needed = minimum_patients - total_patients p
            in if team p = ''A''
               then fix_loop maximum_patients PoolA i (nat (min needed (n_A_new_patients s))) s
               else if team p = ''B''
               then fix_loop maximum_patients PoolB i (nat (min needed (n_B_new_patients s))) s
               else if team p = ''N''
               then fix_loop maximum_patients PoolN i (nat (min needed (n_N_new_patients s))) s
               else s)
         else s)"

definition phase2 :: "int \<Rightarrow> int \<Rightarrow> alloc_state \<Rightarrow> alloc_state" where
  "phase2 minimum_patients maximum_patients s =
     fold (phase2_visit minimum_patients maximum_patients) [0..<length (physicians s)] s"

subsection \<open>Phase 3: fill new physicians to the start number\<close>

text \<open>
  The \<open>while needed > 0 and can_take_patient(physician)\<close> loop of one new physician: the
  own team's pool first, then the pools in the order A, B, N, and \<open>break\<close> when nothing
  was allocated.
\<close>

function fill_loop :: "int \<Rightarrow> nat \<Rightarrow> int \<Rightarrow> alloc_state \<Rightarrow> alloc_state" where
  "fill_loop maximum_patients i needed s =
     (if needed > 0 \<and> can_take_patient maximum_patients (physicians s ! i) then
        (if team (physicians s ! i) = ''A'' \<and> n_A_new_patients s > 0
         then fill_loop maximum_patients i (needed - 1) (take_from PoolA i s)
         else if team (physicians s ! i) = ''B'' \<and> n_B_new_patients s > 0
         then fill_loop maximum_patients i (needed - 1) (take_from PoolB i s)
         else if team (physicians s ! i) = ''N'' \<and> n_N_new_patients s > 0
         then fill_loop maximum_patients i (needed - 1) (take_from PoolN i s)
         else if n_A_new_patients s > 0
         then fill_loop maximum_patients i (needed - 1) (take_from PoolA i s)
         else if n_B_new_patients s > 0
         then fill_loop maximum_patients i (needed - 1) (take_from PoolB i s)
         else if n_N_new_patients s > 0
         then fill_loop maximum_patients i (needed - 1) (take_from PoolN i s)
         else s)
      else s)"
  by pat_completeness auto
termination
  by (relation "measure (\<lambda>(m, i, needed, s). nat needed)") auto

definition phase3_visit :: "int \<Rightarrow> int \<Rightarrow> nat \<Rightarrow> alloc_state \<Rightarrow> alloc_state" where
  "phase3_visit new_start_number maximum_patients i s =
     (let p = physicians s ! i
      in if is_new p then
           (let needed = new_start_number - total_patients p
            in if needed \<le> 0 then s else fill_loop maximum_patients i needed s)
         else s)"

definition phase3 :: "int \<Rightarrow> int \<Rightarrow> alloc_state \<Rightarrow> alloc_state" where
  "phase3 new_start_number maximum_patients s =
     fold (phase3_visit new_start_number maximum_patients) [0..<length (physicians s)] s"

subsection \<open>Phase 4: even distribution\<close>

text \<open>
  \<open>non_new_physicians\<close>, with the filter that the source applies a second time.
\<close>

definition non_new_physicians :: "int \<Rightarrow> physician list \<Rightarrow> nat list" where
  "non_new_physicians maximum_patients ps =
     filter (\<lambda>i. \<not> is_new (ps ! i))
       (filter (\<lambda>i. \<not> is_new (ps ! i) \<and> can_take_patient maximum_patients (ps ! i))
          [0..<length ps])"

text \<open>
  \<open>{p.name: p.total_patients - initial_counts[p.name] for p in non_new_physicians}\<close>:
  the subscript raises on a name that is not a key.
\<close>

fun gains_items :: "dict \<Rightarrow> physician list \<Rightarrow> nat list \<Rightarrow> failure + (string \<times> int) list" where
  "gains_items ic ps [] = Inr []"
| "gains_items ic ps (i # js) =
     (case dict_sub ic (name (ps ! i)) of
        Inl e \<Rightarrow> Inl e
      | Inr v \<Rightarrow>
          (case gains_items ic ps js of
             Inl e \<Rightarrow> Inl e
           | Inr kvs \<Rightarrow> Inr ((name (ps ! i), total_patients (ps ! i) - v) # kvs)))"

definition current_gains_of :: "dict \<Rightarrow> physician list \<Rightarrow> nat list \<Rightarrow> failure + dict" where
  "current_gains_of ic ps js =
     (case gains_items ic ps js of Inl e \<Rightarrow> Inl e | Inr kvs \<Rightarrow> Inr (dict_of kvs))"

text \<open>The Team N pool goes to the non-new Team N physicians first.\<close>

fun n_priority_loop :: "int \<Rightarrow> nat list \<Rightarrow> dict \<times> alloc_state \<Rightarrow> dict \<times> alloc_state" where
  "n_priority_loop maximum_patients [] (cg, s) = (cg, s)"
| "n_priority_loop maximum_patients (i # js) (cg, s) =
     (if n_N_new_patients s \<le> 0 then (cg, s)
      else if can_take_patient maximum_patients (physicians s ! i)
      then n_priority_loop maximum_patients js
             (cg(name (physicians s ! i) \<mapsto> dict_get cg (name (physicians s ! i)) 0 + 1),
              take_from PoolN i s)
      else n_priority_loop maximum_patients js (cg, s))"

definition n_priority :: "int \<Rightarrow> nat list \<Rightarrow> dict \<times> alloc_state \<Rightarrow> dict \<times> alloc_state" where
  "n_priority maximum_patients team_N cgs =
     (let ps = physicians (snd cgs);
          team_N_non_new =
            filter (\<lambda>i. \<not> is_new (ps ! i) \<and> can_take_patient maximum_patients (ps ! i)) team_N
      in if team_N_non_new \<noteq> [] \<and> n_N_new_patients (snd cgs) > 0
         then n_priority_loop maximum_patients
                (sort_key (\<lambda>i. total_patients (ps ! i)) team_N_non_new) cgs
         else cgs)"

definition remaining_units :: "alloc_state \<Rightarrow> int" where
  "remaining_units s = n_A_new_patients s + n_B_new_patients s + n_N_new_patients s"

text \<open>The sort keys of \<open>sorted_physicians\<close> and of \<open>sorted_by_additional\<close>.\<close>

definition initial_key :: "dict \<Rightarrow> physician list \<Rightarrow> nat \<Rightarrow> int \<times> int" where
  "initial_key ic ps i =
     (dict_get ic (name (ps ! i)) (total_patients (ps ! i)), total_patients (ps ! i))"

definition additional_key :: "dict \<Rightarrow> dict \<Rightarrow> physician list \<Rightarrow> nat \<Rightarrow> int \<times> int \<times> int" where
  "additional_key tag ic ps i =
     (dict_get tag (name (ps ! i)) 0,
      dict_get ic (name (ps ! i)) (total_patients (ps ! i)),
      total_patients (ps ! i))"

text \<open>
  One \<open>for\<close> pass of the round-robin ladder: one more unit of target for each physician
  in turn, until \<open>patients_to_distribute\<close> is used up.
\<close>

fun ladder_pass :: "physician list \<Rightarrow> nat list \<Rightarrow> dict \<times> int \<Rightarrow> dict \<times> int" where
  "ladder_pass ps [] (tag, n) = (tag, n)"
| "ladder_pass ps (i # js) (tag, n) =
     (if n \<le> 0 then (tag, n)
      else ladder_pass ps js
             (tag(name (ps ! i) \<mapsto> dict_get tag (name (ps ! i)) 0 + 1), n - 1))"

lemma ladder_pass_le: "snd (ladder_pass ps js tn) \<le> snd tn"
proof (induction js arbitrary: tn)
  case Nil
  show ?case by (cases tn) simp
next
  case (Cons i js)
  obtain tag n where tn: "tn = (tag, n)" by (cases tn)
  show ?case
  proof (cases "n \<le> 0")
    case True
    then show ?thesis by (simp add: tn)
  next
    case False
    have "snd (ladder_pass ps js (tag(name (ps ! i) \<mapsto> dict_get tag (name (ps ! i)) 0 + 1), n - 1))
            \<le> n - 1"
      using Cons.IH [of "(tag(name (ps ! i) \<mapsto> dict_get tag (name (ps ! i)) 0 + 1), n - 1)"]
      by simp
    with False show ?thesis by (simp add: tn)
  qed
qed

lemma ladder_pass_less:
  assumes "js \<noteq> []" and "0 < snd tn"
  shows "snd (ladder_pass ps js tn) < snd tn"
proof -
  obtain i ks where js: "js = i # ks" using assms(1) by (cases js) auto
  obtain tag n where tn: "tn = (tag, n)" by (cases tn)
  have "snd (ladder_pass ps ks (tag(name (ps ! i) \<mapsto> dict_get tag (name (ps ! i)) 0 + 1), n - 1))
          \<le> n - 1"
    using ladder_pass_le [of ps ks "(tag(name (ps ! i) \<mapsto> dict_get tag (name (ps ! i)) 0 + 1), n - 1)"]
    by simp
  with assms(2) show ?thesis by (simp add: js tn)
qed

text \<open>
  \<open>while patients_to_distribute > 0\<close>: each round sorts the physicians by the targets so
  far and runs one pass. On an empty list a pass changes nothing and the loop of the
  source never ends.
\<close>

function ladder_while :: "dict \<Rightarrow> physician list \<Rightarrow> nat list \<Rightarrow> dict \<times> int \<Rightarrow> failure + dict" where
  "ladder_while ic ps sp tn =
     (if snd tn > 0 then
        (if sp = [] then Inl NonTermination
         else ladder_while ic ps sp
                (ladder_pass ps (sort_key (additional_key (fst tn) ic ps) sp) tn))
      else Inr (fst tn))"
  by pat_completeness auto
termination
proof (relation "measure (\<lambda>(ic, ps, sp, tn). nat (snd tn))")
  show "wf (measure (\<lambda>(ic, ps, sp, tn). nat (snd tn)))" by simp
next
  fix ic :: dict and ps :: "physician list" and sp :: "nat list" and tn :: "dict \<times> int"
  assume pos: "0 < snd tn" and ne: "sp \<noteq> []"
  have "sort_key (additional_key (fst tn) ic ps) sp \<noteq> []"
    using ne by (metis length_sort length_0_conv)
  then have "snd (ladder_pass ps (sort_key (additional_key (fst tn) ic ps) sp) tn) < snd tn"
    using pos by (rule ladder_pass_less)
  with pos show "((ic, ps, sp, ladder_pass ps (sort_key (additional_key (fst tn) ic ps) sp) tn),
                  (ic, ps, sp, tn)) \<in> measure (\<lambda>(ic, ps, sp, tn). nat (snd tn))"
    by simp
qed

definition target_ladder ::
  "dict \<Rightarrow> physician list \<Rightarrow> nat list \<Rightarrow> int \<Rightarrow> int \<Rightarrow> failure + dict" where
  "target_ladder ic ps sp num_physicians remaining_patients =
     (let target_additional_gains = dict_of (map (\<lambda>i. (name (ps ! i), 0)) sp);
          patients_to_distribute = remaining_patients
      in if num_physicians > remaining_patients
         then ladder_while ic ps sp (target_additional_gains, patients_to_distribute)
         else ladder_while ic ps sp
                (ladder_pass ps sp (target_additional_gains, patients_to_distribute)))"

text \<open>
  The normalised targets: \<open>base_final_gain + 1\<close> for the first \<open>remainder_final\<close>
  physicians of \<open>sorted_physicians\<close>, \<open>base_final_gain\<close> for the others.
\<close>

definition target_total_gains_of ::
  "physician list \<Rightarrow> nat list \<Rightarrow> int \<Rightarrow> int \<Rightarrow> dict" where
  "target_total_gains_of ps sp base_final_gain remainder_final =
     dict_of (map (\<lambda>(k, i). (name (ps ! i),
                              if int k < remainder_final then base_final_gain + 1
                              else base_final_gain))
                  (enumerate 0 sp))"

definition normalized_additional_gains ::
  "physician list \<Rightarrow> nat list \<Rightarrow> dict \<Rightarrow> dict \<Rightarrow> dict \<Rightarrow> dict" where
  "normalized_additional_gains ps sp cg ttg tag =
     fold (\<lambda>i t. t(name (ps ! i) \<mapsto>
                    max 0 (dict_get ttg (name (ps ! i)) 0 - dict_get cg (name (ps ! i)) 0)))
          sp tag"

text \<open>
  The variables of the targeted distribution loop. \<open>alloc\<close> holds the roster and the
  pools; the other three are locals of the source.
\<close>

record target_loop =
  alloc :: alloc_state
  current_gains :: dict
  remaining_after_targets :: int
  made_progress :: bool

text \<open>
  The allocation block of the targeted loop for pool \<open>pl\<close>, ended by \<open>continue\<close>;
  \<open>init\<close> is the value of \<open>initial_counts[physician.name]\<close>.
\<close>

definition allocate_to :: "pool \<Rightarrow> int \<Rightarrow> nat \<Rightarrow> target_loop \<Rightarrow> target_loop" where
  "allocate_to pl init i l =
     (let s = take_from pl i (alloc l); p = physicians s ! i
      in l\<lparr>alloc := s,
           remaining_after_targets := remaining_after_targets l - 1,
           current_gains := (current_gains l)(name p \<mapsto> total_patients p - init),
           made_progress := True\<rparr>)"

text \<open>\<open># If own team pool exhausted, try other pools\<close>\<close>

definition other_pools :: "dict \<Rightarrow> int \<Rightarrow> int \<Rightarrow> nat \<Rightarrow> target_loop \<Rightarrow> target_loop" where
  "other_pools ttg maximum_patients init i l =
     (let s = alloc l; p = physicians s ! i;
          target_total_gain = dict_get ttg (name p) 0;
          actual_current_gain = total_patients p - init
      in if actual_current_gain < target_total_gain \<and> can_take_patient maximum_patients p then
           (let can_use_other_pools =
                  (is_buffer p \<or>
                   (team p = ''A'' \<and> n_A_new_patients s = 0) \<or>
                   (team p = ''B'' \<and> n_B_new_patients s = 0) \<or>
                   (team p = ''N'' \<and> n_N_new_patients s = 0))
            in if can_use_other_pools then
                 (if n_A_new_patients s > 0 \<and> can_take_patient maximum_patients p
                       \<and> actual_current_gain < target_total_gain
                  then allocate_to PoolA init i l
                  else if n_B_new_patients s > 0 \<and> can_take_patient maximum_patients p
                       \<and> actual_current_gain < target_total_gain
                  then allocate_to PoolB init i l
                  else if n_N_new_patients s > 0 \<and> can_take_patient maximum_patients p
                       \<and> actual_current_gain < target_total_gain
                  then allocate_to PoolN init i l
                  else l)
               else l)
         else l)"

text \<open>
  The body of \<open>for physician in sorted_physicians\<close> after the subscript
  \<open>initial_counts[physician.name]\<close> has given \<open>init\<close>: the own team's pool first.
\<close>

definition target_step :: "dict \<Rightarrow> int \<Rightarrow> int \<Rightarrow> nat \<Rightarrow> target_loop \<Rightarrow> target_loop" where
  "target_step ttg maximum_patients init i l =
     (let s = alloc l; p = physicians s ! i;
          target_total_gain = dict_get ttg (name p) 0;
          actual_current_gain = total_patients p - init;
          needed = target_total_gain - actual_current_gain
      in if needed \<le> 0 \<or> \<not> can_take_patient maximum_patients p then l
         else if team p = ''A'' \<and> n_A_new_patients s > 0 then
           (if can_take_patient maximum_patients p \<and> actual_current_gain < target_total_gain
            then allocate_to PoolA init i l
            else other_pools ttg maximum_patients init i l)
         else if team p = ''B'' \<and> n_B_new_patients s > 0 then
           (if can_take_patient maximum_patients p \<and> actual_current_gain < target_total_gain
            then allocate_to PoolB init i l
            else other_pools ttg maximum_patients init i l)
         else if team p = ''N'' \<and> n_N_new_patients s > 0 then
           (if can_take_patient maximum_patients p \<and> actual_current_gain < target_total_gain
            then allocate_to PoolN init i l
            else other_pools ttg maximum_patients init i l)
         else other_pools ttg maximum_patients init i l)"

definition target_visit ::
  "dict \<Rightarrow> dict \<Rightarrow> int \<Rightarrow> nat \<Rightarrow> target_loop \<Rightarrow> failure + target_loop" where
  "target_visit ic ttg maximum_patients i l =
     (let p = physicians (alloc l) ! i
      in if is_new p then Inr l
         else (case dict_sub ic (name p) of
                 Inl e \<Rightarrow> Inl e
               | Inr init \<Rightarrow> Inr (target_step ttg maximum_patients init i l)))"

fun target_pass ::
  "dict \<Rightarrow> dict \<Rightarrow> int \<Rightarrow> nat list \<Rightarrow> target_loop \<Rightarrow> failure + target_loop" where
  "target_pass ic ttg maximum_patients [] l = Inr l"
| "target_pass ic ttg maximum_patients (i # js) l =
     (case target_visit ic ttg maximum_patients i l of
        Inl e \<Rightarrow> Inl e
      | Inr l' \<Rightarrow> target_pass ic ttg maximum_patients js l')"

text \<open>
  \<open>while remaining_after_targets > 0 and iteration < max_iterations\<close>, with the \<open>break\<close>
  after a pass without progress.
\<close>

function target_while ::
  "dict \<Rightarrow> dict \<Rightarrow> int \<Rightarrow> nat list \<Rightarrow> int \<Rightarrow> int \<Rightarrow> target_loop \<Rightarrow> failure + target_loop" where
  "target_while ic ttg maximum_patients sp max_iterations iteration l =
     (if remaining_after_targets l > 0 \<and> iteration < max_iterations then
        (case target_pass ic ttg maximum_patients sp (l\<lparr>made_progress := False\<rparr>) of
           Inl e \<Rightarrow> Inl e
         | Inr l' \<Rightarrow>
             if \<not> made_progress l' then Inr l'
             else target_while ic ttg maximum_patients sp max_iterations (iteration + 1)
                    (l'\<lparr>remaining_after_targets := remaining_units (alloc l')\<rparr>))
      else Inr l)"
  by pat_completeness auto
termination
  by (relation "measure (\<lambda>(ic, ttg, m, sp, max_iterations, iteration, l).
                           nat (max_iterations - iteration))") auto

text \<open>
  The final pass. \<open>sorted(..., reverse=True)\<close> computes the key of every physician
  first (each key holds a subscript of \<open>initial_counts\<close>), then sorts stably in
  descending order: equal keys keep their order.
\<close>

fun need_keys ::
  "dict \<Rightarrow> dict \<Rightarrow> physician list \<Rightarrow> nat list \<Rightarrow> failure + ((int \<times> int) \<times> nat) list" where
  "need_keys ic ttg ps [] = Inr []"
| "need_keys ic ttg ps (i # js) =
     (case dict_sub ic (name (ps ! i)) of
        Inl e \<Rightarrow> Inl e
      | Inr init \<Rightarrow>
          (case need_keys ic ttg ps js of
             Inl e \<Rightarrow> Inl e
           | Inr kis \<Rightarrow>
               Inr (((dict_get ttg (name (ps ! i)) 0 - (total_patients (ps ! i) - init),
                      total_patients (ps ! i)), i) # kis)))"

definition sorted_reverse :: "(('k::linorder) \<times> nat) list \<Rightarrow> nat list" where
  "sorted_reverse kis = map snd (rev (sort_key fst (rev kis)))"

definition final_step :: "dict \<Rightarrow> int \<Rightarrow> int \<Rightarrow> nat \<Rightarrow> int \<times> alloc_state \<Rightarrow> int \<times> alloc_state" where
  "final_step ttg maximum_patients init i rs =
     (let remaining_final = fst rs; s = snd rs; p = physicians s ! i;
          target = dict_get ttg (name p) 0;
          actual_gain = total_patients p - init;
          needed = target - actual_gain
      in if needed \<le> 0 \<or> \<not> can_take_patient maximum_patients p then rs
         else if n_A_new_patients s > 0 \<and> actual_gain < target
         then (remaining_final - 1, take_from PoolA i s)
         else if n_B_new_patients s > 0 \<and> actual_gain < target
         then (remaining_final - 1, take_from PoolB i s)
         else if n_N_new_patients s > 0 \<and> actual_gain < target
         then (remaining_final - 1, take_from PoolN i s)
         else rs)"

fun final_loop ::
  "dict \<Rightarrow> dict \<Rightarrow> int \<Rightarrow> nat list \<Rightarrow> int \<times> alloc_state \<Rightarrow> failure + (int \<times> alloc_state)" where
  "final_loop ic ttg maximum_patients [] rs = Inr rs"
| "final_loop ic ttg maximum_patients (i # js) rs =
     (if is_new (physicians (snd rs) ! i) then final_loop ic ttg maximum_patients js rs
      else if fst rs \<le> 0 then Inr rs
      else (case dict_sub ic (name (physicians (snd rs) ! i)) of
              Inl e \<Rightarrow> Inl e
            | Inr init \<Rightarrow>
                final_loop ic ttg maximum_patients js
                  (final_step ttg maximum_patients init i rs)))"

definition final_pass ::
  "dict \<Rightarrow> dict \<Rightarrow> int \<Rightarrow> nat list \<Rightarrow> alloc_state \<Rightarrow> failure + alloc_state" where
  "final_pass ic ttg maximum_patients sp s =
     (let remaining_final = remaining_units s
      in if remaining_final > 0 then
           (case need_keys ic ttg (physicians s) sp of
              Inl e \<Rightarrow> Inl e
            | Inr kis \<Rightarrow>
                (case final_loop ic ttg maximum_patients (sorted_reverse kis)
                        (remaining_final, s) of
                   Inl e \<Rightarrow> Inl e
                 | Inr rs \<Rightarrow> Inr (snd rs)))
         else Inr s)"

text \<open>
  The body of \<open>if num_physicians > 0\<close>: the ladder, the normalised targets, the targeted
  loop and the final pass. The dictionary \<open>target_additional_gains\<close> is built by the
  ladder and overwritten by the normalisation; nothing reads it afterwards.
\<close>

definition distribute ::
  "dict \<Rightarrow> int \<Rightarrow> nat list \<Rightarrow> dict \<Rightarrow> int \<Rightarrow> alloc_state \<Rightarrow> failure + alloc_state" where
  "distribute ic maximum_patients non_new cg remaining_patients s =
     (let ps = physicians s;
          num_physicians = int (length non_new);
          sorted_physicians = sort_key (initial_key ic ps) non_new
      in case target_ladder ic ps sorted_physicians num_physicians remaining_patients of
           Inl e \<Rightarrow> Inl e
         | Inr tag \<Rightarrow>
            (let total_current_gains_sum =
                   sum_list (map (\<lambda>i. dict_get cg (name (ps ! i)) 0) sorted_physicians);
                 total_final_gains_needed = total_current_gains_sum + remaining_patients;
                 base_final_gain = total_final_gains_needed div num_physicians;
                 remainder_final = total_final_gains_needed mod num_physicians;
                 ttg = target_total_gains_of ps sorted_physicians base_final_gain remainder_final;
                 target_additional_gains =
                   normalized_additional_gains ps sorted_physicians cg ttg tag;
                 remaining = remaining_units s;
                 max_iterations = remaining * 3
             in case target_while ic ttg maximum_patients sorted_physicians max_iterations 0
                       \<lparr>alloc = s, current_gains = cg, remaining_after_targets = remaining,
                        made_progress = False\<rparr> of
                  Inl e \<Rightarrow> Inl e
                | Inr l \<Rightarrow> final_pass ic ttg maximum_patients sorted_physicians (alloc l)))"

definition phase4 :: "dict \<Rightarrow> nat list \<Rightarrow> int \<Rightarrow> alloc_state \<Rightarrow> failure + alloc_state" where
  "phase4 ic team_N maximum_patients s0 =
     (let non_new = non_new_physicians maximum_patients (physicians s0)
      in case current_gains_of ic (physicians s0) non_new of
           Inl e \<Rightarrow> Inl e
         | Inr cg0 \<Rightarrow>
            (let s1 = snd (n_priority maximum_patients team_N (cg0, s0))
             in case current_gains_of ic (physicians s1) non_new of
                  Inl e \<Rightarrow> Inl e
                | Inr cg \<Rightarrow>
                   (let remaining_patients = remaining_units s1
                    in if remaining_patients > 0 \<and> non_new \<noteq> [] then
                         (let num_physicians = int (length non_new)
                          in if num_physicians > 0
                             then distribute ic maximum_patients non_new cg remaining_patients s1
                             else Inr s1)
                       else Inr s1)))"

subsection \<open>Phase 5: final verification\<close>

text \<open>\<open>for _ in range(excess): physician.remove_patient()\<close>\<close>

fun remove_loop :: "nat \<Rightarrow> physician \<Rightarrow> failure + physician" where
  "remove_loop 0 p = Inr p"
| "remove_loop (Suc k) p =
     (case remove_patient False p of Inl e \<Rightarrow> Inl e | Inr p' \<Rightarrow> remove_loop k p')"

definition phase5_visit :: "dict \<Rightarrow> int \<Rightarrow> nat \<Rightarrow> physician list \<Rightarrow> failure + physician list" where
  "phase5_visit ic new_start_number i ps =
     (let p = ps ! i
      in if is_new p then
           (let initial_total = dict_get ic (name p) (total_patients p);
                current_total = total_patients p;
                gained = current_total - initial_total
            in if initial_total \<ge> new_start_number then
                 (if gained > 0 then
                    (let excess = gained
                     in case remove_loop (nat excess) p of
                          Inl e \<Rightarrow> Inl e
                        | Inr p' \<Rightarrow> Inr (ps[i := set_total_patients initial_total p']))
                  else Inr ps)
               else Inr ps)
         else Inr ps)"

fun phase5_loop :: "dict \<Rightarrow> int \<Rightarrow> nat list \<Rightarrow> physician list \<Rightarrow> failure + physician list" where
  "phase5_loop ic new_start_number [] ps = Inr ps"
| "phase5_loop ic new_start_number (i # js) ps =
     (case phase5_visit ic new_start_number i ps of
        Inl e \<Rightarrow> Inl e
      | Inr ps' \<Rightarrow> phase5_loop ic new_start_number js ps')"

definition phase5 :: "dict \<Rightarrow> int \<Rightarrow> alloc_state \<Rightarrow> failure + alloc_state" where
  "phase5 ic new_start_number s =
     (case phase5_loop ic new_start_number [0..<length (physicians s)] (physicians s) of
        Inl e \<Rightarrow> Inl e
      | Inr ps \<Rightarrow> Inr (s\<lparr>physicians := ps\<rparr>))"

subsection \<open>The result\<close>

text \<open>
  A row of \<open>results\<close>: the physician's attributes as they are at the end, and the values
  computed from the two snapshots.
\<close>

record result_row =
  attributes :: physician
  original_total_patients :: int
  original_step_down :: int
  gained :: int
  gained_step_down :: int
  gained_plus_traded :: int

definition result_of :: "dict \<Rightarrow> dict \<Rightarrow> physician \<Rightarrow> result_row" where
  "result_of ic isd p =
     (let original_total = dict_get ic (name p) 0;
          original_stepdown = dict_get isd (name p) 0
      in \<lparr>attributes = p,
          original_total_patients = original_total,
          original_step_down = original_stepdown,
          gained = total_patients p - original_total,
          gained_step_down = step_down_patients p - original_stepdown,
          gained_plus_traded = total_patients p - original_total + traded_patients p\<rparr>)"

record summary =
  team_a_total :: int
  team_b_total :: int
  team_n_total :: int
  team_a_gained :: int
  team_b_gained :: int
  team_n_gained :: int
  team_a_stepdown_gained :: int
  team_b_stepdown_gained :: int
  team_n_stepdown_gained :: int
  team_a_traded :: int
  team_b_traded :: int
  total_census :: int
  total_stepdown :: int
  total_gained :: int

definition team_results :: "string \<Rightarrow> result_row list \<Rightarrow> result_row list" where
  "team_results t rs = filter (\<lambda>r. team (attributes r) = t) rs"

definition summary_of :: "result_row list \<Rightarrow> summary" where
  "summary_of rs =
     (let team_a_results = team_results ''A'' rs;
          team_b_results = team_results ''B'' rs;
          team_n_results = team_results ''N'' rs
      in \<lparr>team_a_total = sum_list (map (\<lambda>r. total_patients (attributes r)) team_a_results),
          team_b_total = sum_list (map (\<lambda>r. total_patients (attributes r)) team_b_results),
          team_n_total = sum_list (map (\<lambda>r. total_patients (attributes r)) team_n_results),
          team_a_gained = sum_list (map gained team_a_results),
          team_b_gained = sum_list (map gained team_b_results),
          team_n_gained = sum_list (map gained team_n_results),
          team_a_stepdown_gained = sum_list (map gained_step_down team_a_results),
          team_b_stepdown_gained = sum_list (map gained_step_down team_b_results),
          team_n_stepdown_gained = sum_list (map gained_step_down team_n_results),
          team_a_traded = sum_list (map (\<lambda>r. traded_patients (attributes r)) team_a_results),
          team_b_traded = sum_list (map (\<lambda>r. traded_patients (attributes r)) team_b_results),
          total_census = sum_list (map (\<lambda>r. total_patients (attributes r)) rs),
          total_stepdown = sum_list (map (\<lambda>r. step_down_patients (attributes r)) rs),
          total_gained = sum_list (map gained rs)\<rparr>)"

text \<open>
  What the call returns: the rows, the summary, and \<open>remaining_pools\<close>, the five counters
  as they are at the end (the roster inside is the caller's list, mutated in place).
\<close>

record allocation =
  results :: "result_row list"
  summary :: summary
  remaining_pools :: alloc_state

subsection \<open>\<open>allocate_patients\<close>\<close>

definition initial_state :: "physician list \<Rightarrow> int \<Rightarrow> int \<Rightarrow> int \<Rightarrow> int \<Rightarrow> int \<Rightarrow> alloc_state" where
  "initial_state roster n_total n_A n_B n_N n_step_down =
     \<lparr>physicians = roster, n_total_new_patients = n_total,
      n_A_new_patients = n_A, n_B_new_patients = n_B, n_N_new_patients = n_N,
      n_step_down_patients = n_step_down\<rparr>"

definition finish :: "dict \<Rightarrow> dict \<Rightarrow> alloc_state \<Rightarrow> allocation" where
  "finish ic isd s =
     (let rows = map (result_of ic isd) (physicians s)
      in \<lparr>results = rows, summary = summary_of rows, remaining_pools = s\<rparr>)"

definition allocate_patients ::
  "physician list \<Rightarrow> int \<Rightarrow> int \<Rightarrow> int \<Rightarrow> int \<Rightarrow> int \<Rightarrow> int \<Rightarrow> int \<Rightarrow> int
     \<Rightarrow> failure + allocation" where
  "allocate_patients roster n_total n_A n_B n_N new_start_number minimum_patients
       n_step_down maximum_patients =
     (let ic = initial_counts roster;
          team_A = team_members ''A'' roster;
          team_B = team_members ''B'' roster;
          team_N = team_members ''N'' roster;
          isd = initial_stepdown_counts roster;
          s0 = initial_state roster n_total n_A n_B n_N n_step_down;
          s1 = phase1 isd team_A team_B s0;
          s2 = phase2 minimum_patients maximum_patients s1;
          s3 = phase3 new_start_number maximum_patients s2
      in case phase4 ic team_N maximum_patients s3 of
           Inl e \<Rightarrow> Inl e
         | Inr s4 \<Rightarrow>
             (case phase5 ic new_start_number s4 of
                Inl e \<Rightarrow> Inl e
              | Inr s5 \<Rightarrow> Inr (finish ic isd s5)))"

text \<open>The state that \<open>allocate_patients\<close> hands to Phase 3.\<close>

definition before_phase3 ::
  "physician list \<Rightarrow> int \<Rightarrow> int \<Rightarrow> int \<Rightarrow> int \<Rightarrow> int \<Rightarrow> int \<Rightarrow> int \<Rightarrow> alloc_state" where
  "before_phase3 roster n_total n_A n_B n_N minimum_patients n_step_down maximum_patients =
     phase2 minimum_patients maximum_patients
       (phase1 (initial_stepdown_counts roster) (team_members ''A'' roster)
          (team_members ''B'' roster)
          (initial_state roster n_total n_A n_B n_N n_step_down))"

text \<open>
  The state when the \<open>for\<close> loop of Phase 3 reaches the physician at position \<open>i\<close>: the
  physicians before it have had their turn.
\<close>

definition phase3_turn :: "int \<Rightarrow> int \<Rightarrow> nat \<Rightarrow> alloc_state \<Rightarrow> alloc_state" where
  "phase3_turn new_start_number maximum_patients i s =
     fold (phase3_visit new_start_number maximum_patients) [0..<i] s"

text \<open>What a caller observes of a run: the totals, the step-down counts and the pools.\<close>

definition final_totals :: "failure + allocation \<Rightarrow> failure + int list" where
  "final_totals r = on_result (\<lambda>a. map total_patients (physicians (remaining_pools a))) r"

definition final_step_downs :: "failure + allocation \<Rightarrow> failure + int list" where
  "final_step_downs r =
     on_result (\<lambda>a. map step_down_patients (physicians (remaining_pools a))) r"

definition final_pools :: "failure + allocation \<Rightarrow> failure + int \<times> int \<times> int \<times> int \<times> int" where
  "final_pools r =
     on_result (\<lambda>a. (n_total_new_patients (remaining_pools a),
                       n_A_new_patients (remaining_pools a),
                       n_B_new_patients (remaining_pools a),
                       n_N_new_patients (remaining_pools a),
                       n_step_down_patients (remaining_pools a))) r"

section \<open>Transfers of single units\<close>

text \<open>
  Every change that Phases 2 to 4 make to the state is a transfer of one unit from a
  non-empty team pool to a physician below the maximum who is not new or is below the
  start number; every change of Phase 1 is a transfer of one step-down unit to a
  physician who has not gained one yet.
\<close>

definition unit_move :: "int \<Rightarrow> int \<Rightarrow> alloc_state \<Rightarrow> alloc_state \<Rightarrow> bool" where
  "unit_move maximum_patients new_start_number s s' \<longleftrightarrow>
     (\<exists>pl i. i < length (physicians s) \<and> 0 < pool_count pl s \<and>
             total_patients (physicians s ! i) < maximum_patients \<and>
             (is_new (physicians s ! i) \<longrightarrow>
                total_patients (physicians s ! i) < new_start_number) \<and>
             s' = take_from pl i s)"

definition unit_moves :: "int \<Rightarrow> int \<Rightarrow> alloc_state \<Rightarrow> alloc_state \<Rightarrow> bool" where
  "unit_moves maximum_patients new_start_number =
     rtranclp (unit_move maximum_patients new_start_number)"

definition sd_move :: "dict \<Rightarrow> alloc_state \<Rightarrow> alloc_state \<Rightarrow> bool" where
  "sd_move isd s s' \<longleftrightarrow>
     (\<exists>i. i < length (physicians s) \<and> 0 < n_step_down_patients s \<and>
          can_take_step_down isd (physicians s ! i) \<and> s' = give_step_down i s)"

definition sd_moves :: "dict \<Rightarrow> alloc_state \<Rightarrow> alloc_state \<Rightarrow> bool" where
  "sd_moves isd = rtranclp (sd_move isd)"

definition keys_ok :: "dict \<Rightarrow> physician list \<Rightarrow> bool" where
  "keys_ok d ps \<longleftrightarrow> (\<forall>i<length ps. d (name (ps ! i)) \<noteq> None)"

definition in_roster :: "nat list \<Rightarrow> physician list \<Rightarrow> bool" where
  "in_roster js ps \<longleftrightarrow> (\<forall>j\<in>set js. j < length ps)"

text \<open>Two rosters that differ at most in the counts named: every other attribute agrees.\<close>

definition same_but_total :: "physician list \<Rightarrow> physician list \<Rightarrow> bool" where
  "same_but_total ps ps' \<longleftrightarrow>
     length ps' = length ps \<and>
     (\<forall>i<length ps. ps' ! i = (ps ! i)\<lparr>total_patients := total_patients (ps' ! i)\<rparr>)"

definition same_but_step_down :: "physician list \<Rightarrow> physician list \<Rightarrow> bool" where
  "same_but_step_down ps ps' \<longleftrightarrow>
     length ps' = length ps \<and>
     (\<forall>i<length ps. ps' ! i = (ps ! i)\<lparr>step_down_patients := step_down_patients (ps' ! i)\<rparr>)"

definition stays_or_moves :: "int \<Rightarrow> int \<Rightarrow> alloc_state \<Rightarrow> alloc_state \<Rightarrow> bool" where
  "stays_or_moves m n s s' \<longleftrightarrow> s' = s \<or> unit_move m n s s'"

text \<open>The physicians whose total Phase 5 resets.\<close>

definition phase5_target :: "dict \<Rightarrow> int \<Rightarrow> physician \<Rightarrow> bool" where
  "phase5_target ic nsn p \<longleftrightarrow>
     is_new p \<and> nsn \<le> dict_get ic (name p) (total_patients p) \<and>
     dict_get ic (name p) (total_patients p) < total_patients p"

section \<open>Rosters that differ in \<open>is_working\<close> only\<close>

text \<open>
  \<open>set_working w ps\<close> is the roster \<open>ps\<close> with the flag \<open>is_working\<close> of the physician at
  position \<open>i\<close> set to \<open>w i\<close>, whatever it was.
\<close>

definition set_working :: "(nat \<Rightarrow> bool) \<Rightarrow> physician list \<Rightarrow> physician list" where
  "set_working w ps = map (\<lambda>i. (ps ! i)\<lparr>is_working := w i\<rparr>) [0..<length ps]"

definition with_working :: "(nat \<Rightarrow> bool) \<Rightarrow> alloc_state \<Rightarrow> alloc_state" where
  "with_working w s = s\<lparr>physicians := set_working w (physicians s)\<rparr>"

definition loop_with_working :: "(nat \<Rightarrow> bool) \<Rightarrow> target_loop \<Rightarrow> target_loop" where
  "loop_with_working w l = l\<lparr>alloc := with_working w (alloc l)\<rparr>"

section \<open>Example rosters\<close>

definition doc :: "string \<Rightarrow> string \<Rightarrow> bool \<Rightarrow> bool \<Rightarrow> bool \<Rightarrow> int \<Rightarrow> int \<Rightarrow> physician" where
  "doc nm tm nw bf wk tot sd =
     \<lparr>name = nm, is_new = nw, team = tm, is_buffer = bf, is_working = wk, yesterday = [],
      total_patients = tot, step_down_patients = sd, transferred_patients = 0,
      traded_patients = 0\<rparr>"

text \<open>
  Five physicians of the three teams: \<open>b\<close> is a buffer and is not working, \<open>c\<close> and \<open>e\<close>
  are new.
\<close>

definition ward :: "physician list" where
  "ward = [doc ''a'' ''A'' False False True 5 0, doc ''b'' ''B'' False True False 7 0,
           doc ''c'' ''N'' True False True 0 0, doc ''d'' ''N'' False False True 12 1,
           doc ''e'' ''B'' True False True 12 1]"

definition ward_after :: alloc_state where
  "ward_after =
     \<lparr>physicians =
        [doc ''a'' ''A'' False False True 12 1, doc ''b'' ''B'' False True False 14 0,
         doc ''c'' ''N'' True False True 10 0, doc ''d'' ''N'' False False True 18 1,
         doc ''e'' ''B'' True False True 12 2],
      n_total_new_patients = 0, n_A_new_patients = 0, n_B_new_patients = 0,
      n_N_new_patients = 0, n_step_down_patients = 1\<rparr>"

text \<open>The ward after Phase 1, as \<open>allocate_patients\<close> runs it.\<close>

definition ward_phase1 :: "int \<Rightarrow> int \<Rightarrow> int \<Rightarrow> int \<Rightarrow> int \<Rightarrow> alloc_state" where
  "ward_phase1 n_total n_A n_B n_N n_step_down =
     phase1 (initial_stepdown_counts ward) (team_members ''A'' ward) (team_members ''B'' ward)
       (initial_state ward n_total n_A n_B n_N n_step_down)"

text \<open>A worker far above a maximum of 1000, and the roster after the run.\<close>

definition crowded :: "physician list" where
  "crowded = [doc ''a'' ''B'' False False True 1500 0, doc ''b'' ''A'' False False True 5 0]"

definition crowded_after :: alloc_state where
  "crowded_after =
     \<lparr>physicians =
        [doc ''a'' ''B'' False False True 1500 0, doc ''b'' ''A'' False False True 15 0],
      n_total_new_patients = 0, n_A_new_patients = 0, n_B_new_patients = 0,
      n_N_new_patients = 0, n_step_down_patients = 0\<rparr>"

text \<open>Two entries with the same name: the snapshot keeps the total of the second.\<close>

definition twins :: "physician list" where
  "twins = [doc ''x'' ''A'' True False True 15 0, doc ''x'' ''A'' False False True 10 0]"

section \<open>Lemmas\<close>

subsection \<open>Dictionaries\<close>

lemma dict_of_dom: "dom (dict_of kvs) = fst ` set kvs"
  by (simp add: dict_of_def dom_map_of_conv_image_fst)

lemma dict_of_distinct:
  assumes "distinct (map fst kvs)" and "(k, v) \<in> set kvs"
  shows "dict_of kvs k = Some v"
proof -
  have "distinct (map fst (rev kvs))" using assms(1) by (simp add: rev_map [symmetric])
  moreover have "(k, v) \<in> set (rev kvs)" using assms(2) by simp
  ultimately show ?thesis unfolding dict_of_def by (rule map_of_is_SomeI)
qed

lemma dict_of_value: "dict_of kvs k = Some v \<Longrightarrow> (k, v) \<in> set kvs"
  unfolding dict_of_def by (drule map_of_SomeD) simp

lemma keys_ok_initial_counts: "keys_ok (initial_counts ps) ps"
proof -
  have "name (ps ! i) \<in> dom (initial_counts ps)" if "i < length ps" for i
  proof -
    have "(name (ps ! i), total_patients (ps ! i)) \<in> set (map (\<lambda>p. (name p, total_patients p)) ps)"
      using that by force
    then show ?thesis unfolding initial_counts_def dict_of_dom by force
  qed
  then show ?thesis unfolding keys_ok_def by blast
qed

lemma initial_counts_distinct:
  assumes "distinct (map name ps)" and "i < length ps"
  shows "initial_counts ps (name (ps ! i)) = Some (total_patients (ps ! i))"
proof -
  have "map fst (map (\<lambda>p. (name p, total_patients p)) ps) = map name ps" by simp
  then have "distinct (map fst (map (\<lambda>p. (name p, total_patients p)) ps))"
    using assms(1) by (simp add: comp_def)
  moreover have "(name (ps ! i), total_patients (ps ! i))
                   \<in> set (map (\<lambda>p. (name p, total_patients p)) ps)"
    using assms(2) by force
  ultimately show ?thesis unfolding initial_counts_def by (rule dict_of_distinct)
qed

lemma initial_stepdown_counts_distinct:
  assumes "distinct (map name ps)" and "i < length ps"
  shows "initial_stepdown_counts ps (name (ps ! i)) = Some (step_down_patients (ps ! i))"
proof -
  have "map fst (map (\<lambda>p. (name p, step_down_patients p)) ps) = map name ps" by simp
  then have "distinct (map fst (map (\<lambda>p. (name p, step_down_patients p)) ps))"
    using assms(1) by (simp add: comp_def)
  moreover have "(name (ps ! i), step_down_patients (ps ! i))
                   \<in> set (map (\<lambda>p. (name p, step_down_patients p)) ps)"
    using assms(2) by force
  ultimately show ?thesis unfolding initial_stepdown_counts_def by (rule dict_of_distinct)
qed

lemma initial_counts_value:
  assumes "initial_counts ps k = Some v"
  shows "\<exists>p\<in>set ps. total_patients p = v"
  using dict_of_value [OF assms [unfolded initial_counts_def]] by auto

subsection \<open>One transfer\<close>

lemma take_from_simps [simp]:
  "physicians (take_from pl i s) = (physicians s)[i := add_patient False (physicians s ! i)]"
  "n_total_new_patients (take_from pl i s) = n_total_new_patients s - 1"
  "n_step_down_patients (take_from pl i s) = n_step_down_patients s"
  "n_A_new_patients (take_from pl i s) = n_A_new_patients s - (if pl = PoolA then 1 else 0)"
  "n_B_new_patients (take_from pl i s) = n_B_new_patients s - (if pl = PoolB then 1 else 0)"
  "n_N_new_patients (take_from pl i s) = n_N_new_patients s - (if pl = PoolN then 1 else 0)"
  by (cases pl; simp add: take_from_def)+

lemma give_step_down_simps [simp]:
  "physicians (give_step_down i s) = (physicians s)[i := add_patient True (physicians s ! i)]"
  "n_total_new_patients (give_step_down i s) = n_total_new_patients s"
  "n_step_down_patients (give_step_down i s) = n_step_down_patients s - 1"
  "n_A_new_patients (give_step_down i s) = n_A_new_patients s"
  "n_B_new_patients (give_step_down i s) = n_B_new_patients s"
  "n_N_new_patients (give_step_down i s) = n_N_new_patients s"
  by (simp_all add: give_step_down_def)

lemma add_patient_simps [simp]:
  "name (add_patient b p) = name p"
  "is_new (add_patient b p) = is_new p"
  "team (add_patient b p) = team p"
  "is_buffer (add_patient b p) = is_buffer p"
  "is_working (add_patient b p) = is_working p"
  "total_patients (add_patient False p) = total_patients p + 1"
  "total_patients (add_patient True p) = total_patients p"
  "step_down_patients (add_patient False p) = step_down_patients p"
  "step_down_patients (add_patient True p) = step_down_patients p + 1"
  by (simp_all add: add_patient_def)

lemma sum_list_map_update:
  fixes f :: "'a \<Rightarrow> int"
  shows "i < length xs \<Longrightarrow>
         sum_list (map f (xs[i := x])) = sum_list (map f xs) - f (xs ! i) + f x"
proof (induction xs arbitrary: i)
  case Nil
  then show ?case by simp
next
  case (Cons a xs)
  then show ?case by (cases i) simp_all
qed


subsection \<open>Invariants of unit transfers\<close>

lemma unit_moves_refl: "unit_moves m n s s"
  by (simp add: unit_moves_def)

lemma unit_moves_step:
  "unit_moves m n s s' \<Longrightarrow> unit_move m n s' s'' \<Longrightarrow> unit_moves m n s s''"
  unfolding unit_moves_def by (rule rtranclp.rtrancl_into_rtrancl)

lemma unit_moves_trans:
  "unit_moves m n s s' \<Longrightarrow> unit_moves m n s' s'' \<Longrightarrow> unit_moves m n s s''"
  unfolding unit_moves_def by (rule rtranclp_trans)

lemma unit_moves_single: "unit_move m n s s' \<Longrightarrow> unit_moves m n s s'"
  unfolding unit_moves_def by (rule r_into_rtranclp)

lemma unit_moves_take:
  assumes "i < length (physicians s)" and "0 < pool_count pl s"
    and "can_take_patient m (physicians s ! i)"
    and "is_new (physicians s ! i) \<longrightarrow> total_patients (physicians s ! i) < n"
  shows "unit_move m n s (take_from pl i s)"
  using assms unfolding unit_move_def can_take_patient_def by blast

lemma unit_moves_induct [consumes 1, case_names base step]:
  assumes "unit_moves m n s s'"
    and "P s"
    and "\<And>t pl i. unit_moves m n s t \<Longrightarrow> P t \<Longrightarrow> i < length (physicians t) \<Longrightarrow>
           0 < pool_count pl t \<Longrightarrow> total_patients (physicians t ! i) < m \<Longrightarrow>
           (is_new (physicians t ! i) \<longrightarrow> total_patients (physicians t ! i) < n) \<Longrightarrow>
           P (take_from pl i t)"
  shows "P s'"
  using assms(1) unfolding unit_moves_def
proof (induction rule: rtranclp_induct)
  case base
  show ?case by (rule assms(2))
next
  case (step y z)
  from step.hyps(2) obtain pl i where
    "i < length (physicians y)" "0 < pool_count pl y"
    "total_patients (physicians y ! i) < m"
    "is_new (physicians y ! i) \<longrightarrow> total_patients (physicians y ! i) < n"
    "z = take_from pl i y"
    unfolding unit_move_def by blast
  with step.hyps(1) step.IH show ?case
    using assms(3) [of y i pl] by (simp add: unit_moves_def)
qed

lemma same_but_total_refl: "same_but_total ps ps"
  by (simp add: same_but_total_def)

lemma same_but_total_add:
  assumes "same_but_total ps qs"
  shows "same_but_total ps (qs[i := add_patient False (qs ! i)])"
  unfolding same_but_total_def
proof (intro conjI allI impI)
  show "length (qs[i := add_patient False (qs ! i)]) = length ps"
    using assms by (simp add: same_but_total_def)
next
  fix j assume j: "j < length ps"
  have eq: "qs ! j = (ps ! j)\<lparr>total_patients := total_patients (qs ! j)\<rparr>"
    and len: "length qs = length ps"
    using assms j by (simp_all add: same_but_total_def)
  show "qs[i := add_patient False (qs ! i)] ! j =
          (ps ! j)\<lparr>total_patients := total_patients (qs[i := add_patient False (qs ! i)] ! j)\<rparr>"
  proof (cases "i = j")
    case True
    have "add_patient False (qs ! j) = (ps ! j)\<lparr>total_patients := total_patients (qs ! j) + 1\<rparr>"
      by (subst eq) (simp add: add_patient_def)
    with True j len show ?thesis by simp
  next
    case False
    with eq show ?thesis by simp
  qed
qed

lemma unit_moves_same:
  assumes "unit_moves m n s s'"
  shows "same_but_total (physicians s) (physicians s')"
  using assms
proof (induction rule: unit_moves_induct)
  case base
  show ?case by (rule same_but_total_refl)
next
  case (step t pl i)
  then show ?case by (simp add: same_but_total_add)
qed

lemma same_but_total_fields:
  assumes "same_but_total ps qs" and "i < length ps"
  shows "name (qs ! i) = name (ps ! i)" and "is_new (qs ! i) = is_new (ps ! i)"
    and "team (qs ! i) = team (ps ! i)" and "is_buffer (qs ! i) = is_buffer (ps ! i)"
    and "is_working (qs ! i) = is_working (ps ! i)"
    and "step_down_patients (qs ! i) = step_down_patients (ps ! i)"
proof -
  have eq: "qs ! i = (ps ! i)\<lparr>total_patients := total_patients (qs ! i)\<rparr>"
    using assms by (simp add: same_but_total_def)
  show "name (qs ! i) = name (ps ! i)" by (subst eq) simp
  show "is_new (qs ! i) = is_new (ps ! i)" by (subst eq) simp
  show "team (qs ! i) = team (ps ! i)" by (subst eq) simp
  show "is_buffer (qs ! i) = is_buffer (ps ! i)" by (subst eq) simp
  show "is_working (qs ! i) = is_working (ps ! i)" by (subst eq) simp
  show "step_down_patients (qs ! i) = step_down_patients (ps ! i)" by (subst eq) simp
qed

lemma same_but_total_length: "same_but_total ps qs \<Longrightarrow> length qs = length ps"
  by (simp add: same_but_total_def)

lemma unit_moves_length:
  "unit_moves m n s s' \<Longrightarrow> length (physicians s') = length (physicians s)"
  by (drule unit_moves_same) (rule same_but_total_length)

lemma unit_moves_step_down:
  "unit_moves m n s s' \<Longrightarrow> n_step_down_patients s' = n_step_down_patients s"
  by (induction rule: unit_moves_induct) simp_all

lemma unit_moves_total_sum:
  "unit_moves m n s s' \<Longrightarrow>
   sum_list (map total_patients (physicians s')) + n_total_new_patients s' =
   sum_list (map total_patients (physicians s)) + n_total_new_patients s"
  by (induction rule: unit_moves_induct) (simp_all add: sum_list_map_update)

lemma unit_moves_lockstep:
  "unit_moves m n s s' \<Longrightarrow>
   n_total_new_patients s' - remaining_units s' = n_total_new_patients s - remaining_units s"
proof (induction rule: unit_moves_induct)
  case base
  show ?case by simp
next
  case (step t pl i)
  then show ?case by (cases pl) (simp_all add: remaining_units_def)
qed

lemma unit_moves_pools_nonneg:
  "unit_moves m n s s' \<Longrightarrow>
   (0 \<le> n_A_new_patients s \<longrightarrow> 0 \<le> n_A_new_patients s') \<and>
   (0 \<le> n_B_new_patients s \<longrightarrow> 0 \<le> n_B_new_patients s') \<and>
   (0 \<le> n_N_new_patients s \<longrightarrow> 0 \<le> n_N_new_patients s')"
proof (induction rule: unit_moves_induct)
  case base
  show ?case by simp
next
  case (step t pl i)
  then show ?case by (cases pl) auto
qed

lemma unit_moves_pools_le:
  "unit_moves m n s s' \<Longrightarrow>
   n_A_new_patients s' \<le> n_A_new_patients s \<and>
   n_B_new_patients s' \<le> n_B_new_patients s \<and>
   n_N_new_patients s' \<le> n_N_new_patients s"
proof (induction rule: unit_moves_induct)
  case base
  show ?case by simp
next
  case (step t pl i)
  then show ?case by (cases pl) auto
qed

lemma unit_moves_total_bounds:
  assumes "unit_moves m n s s'" and "j < length (physicians s)"
  shows "total_patients (physicians s ! j) \<le> total_patients (physicians s' ! j) \<and>
         total_patients (physicians s' ! j) \<le> max (total_patients (physicians s ! j)) m \<and>
         (is_new (physicians s ! j) \<and> n \<le> total_patients (physicians s ! j) \<longrightarrow>
            total_patients (physicians s' ! j) = total_patients (physicians s ! j)) \<and>
         (is_new (physicians s ! j) \<longrightarrow>
            total_patients (physicians s' ! j) \<le> max (total_patients (physicians s ! j)) n)"
  using assms
proof (induction rule: unit_moves_induct)
  case base
  show ?case by simp
next
  case (step t pl i)
  have len: "length (physicians t) = length (physicians s)"
    using step.hyps(1) by (rule unit_moves_length)
  have nw: "is_new (physicians t ! j) = is_new (physicians s ! j)"
    using same_but_total_fields(2) [OF unit_moves_same [OF step.hyps(1)] step.prems] .
  show ?case
  proof (cases "i = j")
    case True
    with step len nw show ?thesis by auto
  next
    case False
    with step show ?thesis by simp
  qed
qed

declare fill_loop.simps [simp del]
declare ladder_while.simps [simp del]
declare target_while.simps [simp del]

lemma in_roster_upt: "in_roster [0..<length ps] ps"
  by (simp add: in_roster_def)

lemma fold_unit_moves:
  assumes step: "\<And>i t. i < length (physicians t) \<Longrightarrow> unit_moves m n t (f i t)"
  shows "in_roster js (physicians s) \<Longrightarrow> unit_moves m n s (fold f js s)"
proof (induction js arbitrary: s)
  case Nil
  show ?case by (simp add: unit_moves_refl)
next
  case (Cons j js)
  have j: "j < length (physicians s)" using Cons.prems by (simp add: in_roster_def)
  have first: "unit_moves m n s (f j s)" using j by (rule step)
  have "length (physicians (f j s)) = length (physicians s)"
    using first by (rule unit_moves_length)
  then have "in_roster js (physicians (f j s))"
    using Cons.prems by (simp add: in_roster_def)
  then have "unit_moves m n (f j s) (fold f js (f j s))" by (rule Cons.IH)
  with first show ?case by (simp add: unit_moves_trans)
qed

lemma fix_loop_moves:
  assumes "i < length (physicians s)" and "\<not> is_new (physicians s ! i)"
    and "k \<le> nat (pool_count pl s)"
  shows "unit_moves m n s (fix_loop m pl i k s)"
  using assms
proof (induction k arbitrary: s)
  case 0
  show ?case by (simp add: unit_moves_refl)
next
  case (Suc k)
  show ?case
  proof (cases "can_take_patient m (physicians s ! i)")
    case False
    then show ?thesis by (simp add: unit_moves_refl)
  next
    case True
    have pos: "0 < pool_count pl s" using Suc.prems(3) by simp
    have one: "unit_move m n s (take_from pl i s)"
      using Suc.prems(1) pos True Suc.prems(2) by (simp add: unit_moves_take)
    have "k \<le> nat (pool_count pl (take_from pl i s))"
      using Suc.prems(3) by (cases pl) simp_all
    then have "unit_moves m n (take_from pl i s) (fix_loop m pl i k (take_from pl i s))"
      using Suc.prems(1,2) by (intro Suc.IH) simp_all
    with one True show ?thesis
      by (simp add: unit_moves_trans [OF unit_moves_single])
  qed
qed

lemma phase2_visit_moves:
  assumes "i < length (physicians s)"
  shows "unit_moves m n s (phase2_visit mn m i s)"
  using assms
  by (simp add: phase2_visit_def Let_def unit_moves_refl fix_loop_moves)

lemma phase2_moves: "unit_moves m n s (phase2 mn m s)"
  unfolding phase2_def
  by (rule fold_unit_moves) (simp_all add: phase2_visit_moves in_roster_upt)

lemma fill_loop_stop:
  "\<not> (needed > 0 \<and> can_take_patient m (physicians s ! i)) \<Longrightarrow> fill_loop m i needed s = s"
  by (subst fill_loop.simps) (simp only: if_False)

lemma fill_loop_cases:
  assumes "needed > 0" and "can_take_patient m (physicians s ! i)"
  obtains (stop) "fill_loop m i needed s = s"
      "n_A_new_patients s \<le> 0" "n_B_new_patients s \<le> 0" "n_N_new_patients s \<le> 0"
    | (take) pl where "0 < pool_count pl s"
      "fill_loop m i needed s = fill_loop m i (needed - 1) (take_from pl i s)"
proof -
  have c: "(needed > 0 \<and> can_take_patient m (physicians s ! i)) = True"
    using assms by simp
  consider "0 < n_A_new_patients s" | "n_A_new_patients s \<le> 0" "0 < n_B_new_patients s"
    | "n_A_new_patients s \<le> 0" "n_B_new_patients s \<le> 0" "0 < n_N_new_patients s"
    | "n_A_new_patients s \<le> 0" "n_B_new_patients s \<le> 0" "n_N_new_patients s \<le> 0"
    by linarith
  then show thesis
  proof cases
    case 1
    consider "team (physicians s ! i) = ''B'' \<and> n_B_new_patients s > 0"
      | "team (physicians s ! i) = ''N'' \<and> n_N_new_patients s > 0"
      | "\<not> (team (physicians s ! i) = ''B'' \<and> n_B_new_patients s > 0)"
        "\<not> (team (physicians s ! i) = ''N'' \<and> n_N_new_patients s > 0)"
      by blast
    then show thesis
    proof cases
      case 1
      then have "fill_loop m i needed s = fill_loop m i (needed - 1) (take_from PoolB i s)"
        by (subst fill_loop.simps) (simp add: c)
      with 1 show thesis using take [of PoolB] by simp
    next
      case 2
      then have "fill_loop m i needed s = fill_loop m i (needed - 1) (take_from PoolN i s)"
        by (subst fill_loop.simps) (simp add: c)
      with 2 show thesis using take [of PoolN] by simp
    next
      case 3
      then have "fill_loop m i needed s = fill_loop m i (needed - 1) (take_from PoolA i s)"
        using \<open>0 < n_A_new_patients s\<close> by (subst fill_loop.simps) (auto simp add: c)
      with \<open>0 < n_A_new_patients s\<close> show thesis using take [of PoolA] by simp
    qed
  next
    case 2
    consider "team (physicians s ! i) = ''N'' \<and> n_N_new_patients s > 0"
      | "\<not> (team (physicians s ! i) = ''N'' \<and> n_N_new_patients s > 0)"
      by blast
    then show thesis
    proof cases
      case 1
      then have "fill_loop m i needed s = fill_loop m i (needed - 1) (take_from PoolN i s)"
        using 2 by (subst fill_loop.simps) (auto simp add: c)
      with 1 show thesis using take [of PoolN] by simp
    next
      case b: 2
      then have "fill_loop m i needed s = fill_loop m i (needed - 1) (take_from PoolB i s)"
        using 2 by (subst fill_loop.simps) (auto simp add: c)
      with 2 show thesis using take [of PoolB] by simp
    qed
  next
    case 3
    then have "fill_loop m i needed s = fill_loop m i (needed - 1) (take_from PoolN i s)"
      by (subst fill_loop.simps) (simp add: c)
    with 3 show thesis using take [of PoolN] by simp
  next
    case 4
    then have "fill_loop m i needed s = s"
      by (subst fill_loop.simps) (simp add: c)
    with 4 show thesis using stop by simp
  qed
qed

lemma fill_loop_moves:
  "i < length (physicians s) \<Longrightarrow> needed \<le> n - total_patients (physicians s ! i) \<Longrightarrow>
   unit_moves m n s (fill_loop m i needed s)"
proof (induction k \<equiv> "nat needed" arbitrary: needed s)
  case 0
  then have "fill_loop m i needed s = s" by (intro fill_loop_stop) simp
  then show ?case by (simp add: unit_moves_refl)
next
  case (Suc k)
  have pos: "needed > 0" using Suc.hyps(2) by simp
  show ?case
  proof (cases "can_take_patient m (physicians s ! i)")
    case False
    then have "fill_loop m i needed s = s" by (intro fill_loop_stop) simp
    then show ?thesis by (simp add: unit_moves_refl)
  next
    case True
    from pos True show ?thesis
    proof (cases rule: fill_loop_cases)
      case stop
      then show ?thesis by (simp add: unit_moves_refl)
    next
      case (take pl)
      have elig: "is_new (physicians s ! i) \<longrightarrow> total_patients (physicians s ! i) < n"
        using pos Suc.prems(2) by simp
      have one: "unit_move m n s (take_from pl i s)"
        using Suc.prems(1) take(1) True elig by (simp add: unit_moves_take)
      have "unit_moves m n (take_from pl i s) (fill_loop m i (needed - 1) (take_from pl i s))"
        using Suc.hyps(2) Suc.prems by (intro Suc.hyps(1)) simp_all
      with one show ?thesis
        unfolding take(2) by (rule unit_moves_trans [OF unit_moves_single])
    qed
  qed
qed

lemma phase3_visit_moves:
  assumes "i < length (physicians s)"
  shows "unit_moves m n s (phase3_visit n m i s)"
  using assms
  by (simp add: phase3_visit_def Let_def unit_moves_refl fill_loop_moves)

lemma phase3_moves: "unit_moves m n s (phase3 n m s)"
  unfolding phase3_def
  by (rule fold_unit_moves) (simp_all add: phase3_visit_moves in_roster_upt)

lemma keys_ok_same:
  assumes "same_but_total ps qs" and "keys_ok d ps"
  shows "keys_ok d qs"
  using assms same_but_total_fields(1) [OF assms(1)]
  by (simp add: keys_ok_def same_but_total_length)

lemma keys_ok_moves:
  "unit_moves m n s s' \<Longrightarrow> keys_ok d (physicians s) \<Longrightarrow> keys_ok d (physicians s')"
  by (drule unit_moves_same) (rule keys_ok_same)

lemma in_roster_moves:
  "unit_moves m n s s' \<Longrightarrow> in_roster js (physicians s) \<Longrightarrow> in_roster js (physicians s')"
  by (drule unit_moves_length) (simp add: in_roster_def)

lemma dict_sub_ok: "keys_ok d ps \<Longrightarrow> i < length ps \<Longrightarrow> \<exists>v. dict_sub d (name (ps ! i)) = Inr v"
  by (auto simp add: keys_ok_def dict_sub_def split: option.splits)

lemma gains_items_ok:
  "keys_ok ic ps \<Longrightarrow> in_roster js ps \<Longrightarrow> \<exists>kvs. gains_items ic ps js = Inr kvs"
proof (induction js)
  case Nil
  show ?case by simp
next
  case (Cons j js)
  have "j < length ps" and rest: "in_roster js ps"
    using Cons.prems(2) by (simp_all add: in_roster_def)
  then obtain v where v: "dict_sub ic (name (ps ! j)) = Inr v"
    using dict_sub_ok [OF Cons.prems(1)] by blast
  obtain kvs where "gains_items ic ps js = Inr kvs"
    using Cons.IH [OF Cons.prems(1) rest] by blast
  with v show ?case by simp
qed

lemma current_gains_of_ok:
  "keys_ok ic ps \<Longrightarrow> in_roster js ps \<Longrightarrow> \<exists>cg. current_gains_of ic ps js = Inr cg"
  using gains_items_ok [of ic ps js] by (auto simp add: current_gains_of_def)

lemma n_priority_loop_moves:
  "in_roster js (physicians s) \<Longrightarrow> \<forall>j\<in>set js. \<not> is_new (physicians s ! j) \<Longrightarrow>
   unit_moves m n s (snd (n_priority_loop m js (cg, s)))"
proof (induction js arbitrary: cg s)
  case Nil
  show ?case by (simp add: unit_moves_refl)
next
  case (Cons j js)
  have j: "j < length (physicians s)" and nn: "\<not> is_new (physicians s ! j)"
    using Cons.prems by (simp_all add: in_roster_def)
  have rest: "in_roster js (physicians s)" "\<forall>k\<in>set js. \<not> is_new (physicians s ! k)"
    using Cons.prems by (simp_all add: in_roster_def)
  show ?case
  proof (cases "n_N_new_patients s \<le> 0")
    case True
    then show ?thesis by (simp add: unit_moves_refl)
  next
    case pool: False
    show ?thesis
    proof (cases "can_take_patient m (physicians s ! j)")
      case False
      with pool Cons.IH [OF rest] show ?thesis by simp
    next
      case True
      let ?t = "take_from PoolN j s"
      have one: "unit_moves m n s ?t"
        using j pool True nn by (intro unit_moves_single unit_moves_take) simp_all
      have r1: "in_roster js (physicians ?t)" using rest(1) by (simp add: in_roster_def)
      have r2: "\<forall>k\<in>set js. \<not> is_new (physicians ?t ! k)"
      proof
        fix k assume k: "k \<in> set js"
        then have "k < length (physicians s)" using rest(1) by (simp add: in_roster_def)
        then have "is_new (physicians ?t ! k) = is_new (physicians s ! k)"
          using same_but_total_fields(2) [OF unit_moves_same [OF one]] by simp
        with rest(2) k show "\<not> is_new (physicians ?t ! k)" by simp
      qed
      have "unit_moves m n ?t (snd (n_priority_loop m js
              (cg(name (physicians s ! j) \<mapsto> dict_get cg (name (physicians s ! j)) 0 + 1), ?t)))"
        using r1 r2 by (rule Cons.IH)
      with one pool True show ?thesis by (simp add: unit_moves_trans)
    qed
  qed
qed

lemma n_priority_moves:
  assumes "in_roster team_N (physicians s)"
  shows "unit_moves m n s (snd (n_priority m team_N (cg, s)))"
proof -
  let ?js = "filter (\<lambda>i. \<not> is_new (physicians s ! i) \<and> can_take_patient m (physicians s ! i)) team_N"
  let ?sorted = "sort_key (\<lambda>i. total_patients (physicians s ! i)) ?js"
  have "in_roster ?sorted (physicians s)" using assms by (simp add: in_roster_def)
  moreover have "\<forall>j\<in>set ?sorted. \<not> is_new (physicians s ! j)" by simp
  ultimately have "unit_moves m n s (snd (n_priority_loop m ?sorted (cg, s)))"
    by (rule n_priority_loop_moves)
  then show ?thesis by (simp add: n_priority_def Let_def unit_moves_refl)
qed

lemma ladder_while_ok: "sp \<noteq> [] \<Longrightarrow> \<exists>t. ladder_while ic ps sp tn = Inr t"
proof (induction ic ps sp tn rule: ladder_while.induct)
  case (1 ic ps sp tn)
  show ?case
  proof (cases "snd tn > 0")
    case False
    then show ?thesis by (subst ladder_while.simps) simp
  next
    case True
    with "1.IH" "1.prems" show ?thesis by (subst ladder_while.simps) simp
  qed
qed

lemma target_ladder_ok: "sp \<noteq> [] \<Longrightarrow> \<exists>t. target_ladder ic ps sp k r = Inr t"
  by (simp add: target_ladder_def Let_def ladder_while_ok)

lemma alloc_allocate_to [simp]: "alloc (allocate_to pl init i l) = take_from pl i (alloc l)"
  by (simp add: allocate_to_def Let_def)

lemma stays_or_moves_moves: "stays_or_moves m n s s' \<Longrightarrow> unit_moves m n s s'"
  by (auto simp add: stays_or_moves_def unit_moves_refl unit_moves_single)

lemma stays_or_moves_take:
  assumes "i < length (physicians s)" and "\<not> is_new (physicians s ! i)"
    and "can_take_patient m (physicians s ! i)" and "0 < pool_count pl s"
  shows "stays_or_moves m n s (take_from pl i s)"
  using assms by (simp add: stays_or_moves_def unit_moves_take)

lemma other_pools_moves:
  assumes "i < length (physicians (alloc l))" and "\<not> is_new (physicians (alloc l) ! i)"
  shows "stays_or_moves m n (alloc l) (alloc (other_pools ttg m init i l))"
  using assms
  by (simp add: other_pools_def Let_def stays_or_moves_take)
     (simp add: stays_or_moves_def)

lemma target_step_moves:
  assumes "i < length (physicians (alloc l))" and "\<not> is_new (physicians (alloc l) ! i)"
  shows "stays_or_moves m n (alloc l) (alloc (target_step ttg m init i l))"
  using assms other_pools_moves [OF assms, of m n ttg init]
  by (simp add: target_step_def Let_def stays_or_moves_take)
     (simp add: stays_or_moves_def)

lemma target_visit_ok:
  assumes "keys_ok ic (physicians (alloc l))" and "i < length (physicians (alloc l))"
  shows "\<exists>l'. target_visit ic ttg m i l = Inr l' \<and> unit_moves m n (alloc l) (alloc l')"
proof (cases "is_new (physicians (alloc l) ! i)")
  case True
  then show ?thesis by (simp add: target_visit_def unit_moves_refl)
next
  case False
  obtain v where v: "dict_sub ic (name (physicians (alloc l) ! i)) = Inr v"
    using dict_sub_ok [OF assms] by blast
  have "unit_moves m n (alloc l) (alloc (target_step ttg m v i l))"
    using assms(2) False by (intro stays_or_moves_moves target_step_moves)
  with False v show ?thesis by (simp add: target_visit_def)
qed

lemma target_pass_ok:
  "keys_ok ic (physicians (alloc l)) \<Longrightarrow> in_roster js (physicians (alloc l)) \<Longrightarrow>
   \<exists>l'. target_pass ic ttg m js l = Inr l' \<and> unit_moves m n (alloc l) (alloc l')"
proof (induction js arbitrary: l)
  case Nil
  show ?case by (simp add: unit_moves_refl)
next
  case (Cons j js)
  have j: "j < length (physicians (alloc l))" and rest: "in_roster js (physicians (alloc l))"
    using Cons.prems(2) by (simp_all add: in_roster_def)
  obtain l1 where l1: "target_visit ic ttg m j l = Inr l1"
    and m1: "unit_moves m n (alloc l) (alloc l1)"
    using target_visit_ok [OF Cons.prems(1) j] by blast
  have "keys_ok ic (physicians (alloc l1))" using m1 Cons.prems(1) by (rule keys_ok_moves)
  moreover have "in_roster js (physicians (alloc l1))" using m1 rest by (rule in_roster_moves)
  ultimately obtain l2 where l2: "target_pass ic ttg m js l1 = Inr l2"
    and m2: "unit_moves m n (alloc l1) (alloc l2)"
    using Cons.IH by blast
  from l1 l2 m1 m2 show ?case by (auto intro: unit_moves_trans)
qed

lemma target_while_ok:
  "keys_ok ic (physicians (alloc l)) \<Longrightarrow> in_roster sp (physicians (alloc l)) \<Longrightarrow>
   \<exists>l'. target_while ic ttg m sp mx it l = Inr l' \<and> unit_moves m n (alloc l) (alloc l')"
proof (induction k \<equiv> "nat (mx - it)" arbitrary: it l)
  case 0
  then have "target_while ic ttg m sp mx it l = Inr l"
    by (subst target_while.simps) simp
  then show ?case by (simp add: unit_moves_refl)
next
  case (Suc k)
  show ?case
  proof (cases "remaining_after_targets l > 0 \<and> it < mx")
    case False
    then have "target_while ic ttg m sp mx it l = Inr l"
      by (subst target_while.simps) (simp only: if_False)
    then show ?thesis by (simp add: unit_moves_refl)
  next
    case True
    let ?l0 = "l\<lparr>made_progress := False\<rparr>"
    have "keys_ok ic (physicians (alloc ?l0))" "in_roster sp (physicians (alloc ?l0))"
      using Suc.prems by simp_all
    then obtain l1 where l1: "target_pass ic ttg m sp ?l0 = Inr l1"
      and m1: "unit_moves m n (alloc ?l0) (alloc l1)"
      using target_pass_ok by blast
    have m1': "unit_moves m n (alloc l) (alloc l1)" using m1 by simp
    show ?thesis
    proof (cases "made_progress l1")
      case False
      with True l1 have "target_while ic ttg m sp mx it l = Inr l1"
        by (subst target_while.simps) simp
      with m1' show ?thesis by simp
    next
      case mp: True
      let ?l2 = "l1\<lparr>remaining_after_targets := remaining_units (alloc l1)\<rparr>"
      have eq: "target_while ic ttg m sp mx it l = target_while ic ttg m sp mx (it + 1) ?l2"
        using True l1 mp by (subst target_while.simps) simp
      have "k = nat (mx - (it + 1))" using Suc.hyps(2) by simp
      moreover have "keys_ok ic (physicians (alloc ?l2))"
        using keys_ok_moves [OF m1' Suc.prems(1)] by simp
      moreover have "in_roster sp (physicians (alloc ?l2))"
        using in_roster_moves [OF m1' Suc.prems(2)] by simp
      ultimately obtain l3 where "target_while ic ttg m sp mx (it + 1) ?l2 = Inr l3"
        and "unit_moves m n (alloc ?l2) (alloc l3)"
        using Suc.hyps(1) by blast
      with eq m1' show ?thesis by (auto intro: unit_moves_trans)
    qed
  qed
qed

lemma need_keys_ok:
  "keys_ok ic ps \<Longrightarrow> in_roster js ps \<Longrightarrow>
   \<exists>kis. need_keys ic ttg ps js = Inr kis \<and> map snd kis = js"
proof (induction js)
  case Nil
  show ?case by simp
next
  case (Cons j js)
  have "j < length ps" and rest: "in_roster js ps"
    using Cons.prems(2) by (simp_all add: in_roster_def)
  then obtain v where v: "dict_sub ic (name (ps ! j)) = Inr v"
    using dict_sub_ok [OF Cons.prems(1)] by blast
  obtain kis where "need_keys ic ttg ps js = Inr kis" "map snd kis = js"
    using Cons.IH [OF Cons.prems(1) rest] by blast
  with v show ?case by simp
qed

lemma set_sorted_reverse: "set (sorted_reverse kis) = set (map snd kis)"
  by (simp add: sorted_reverse_def)

lemma final_step_moves:
  assumes "i < length (physicians (snd rs))" and "\<not> is_new (physicians (snd rs) ! i)"
  shows "stays_or_moves m n (snd rs) (snd (final_step ttg m init i rs))"
  using assms
  by (simp add: final_step_def Let_def stays_or_moves_take)
     (simp add: stays_or_moves_def)

lemma final_loop_ok:
  "keys_ok ic (physicians (snd rs)) \<Longrightarrow> in_roster js (physicians (snd rs)) \<Longrightarrow>
   \<exists>rs'. final_loop ic ttg m js rs = Inr rs' \<and> unit_moves m n (snd rs) (snd rs')"
proof (induction js arbitrary: rs)
  case Nil
  show ?case by (simp add: unit_moves_refl)
next
  case (Cons j js)
  have j: "j < length (physicians (snd rs))" and rest: "in_roster js (physicians (snd rs))"
    using Cons.prems(2) by (simp_all add: in_roster_def)
  show ?case
  proof (cases "is_new (physicians (snd rs) ! j)")
    case True
    with Cons.IH [OF Cons.prems(1) rest] show ?thesis by simp
  next
    case nn: False
    show ?thesis
    proof (cases "fst rs \<le> 0")
      case True
      with nn show ?thesis by (simp add: unit_moves_refl)
    next
      case False
      obtain v where v: "dict_sub ic (name (physicians (snd rs) ! j)) = Inr v"
        using dict_sub_ok [OF Cons.prems(1) j] by blast
      let ?rs1 = "final_step ttg m v j rs"
      have m1: "unit_moves m n (snd rs) (snd ?rs1)"
        using j nn by (intro stays_or_moves_moves final_step_moves)
      have "keys_ok ic (physicians (snd ?rs1))" using m1 Cons.prems(1) by (rule keys_ok_moves)
      moreover have "in_roster js (physicians (snd ?rs1))" using m1 rest by (rule in_roster_moves)
      ultimately obtain rs2 where "final_loop ic ttg m js ?rs1 = Inr rs2"
        and "unit_moves m n (snd ?rs1) (snd rs2)"
        using Cons.IH by blast
      with nn False v m1 show ?thesis by (auto intro: unit_moves_trans)
    qed
  qed
qed

lemma final_pass_ok:
  assumes "keys_ok ic (physicians s)" and "in_roster sp (physicians s)"
  shows "\<exists>s'. final_pass ic ttg m sp s = Inr s' \<and> unit_moves m n s s'"
proof (cases "remaining_units s > 0")
  case False
  then show ?thesis by (simp add: final_pass_def unit_moves_refl)
next
  case True
  obtain kis where kis: "need_keys ic ttg (physicians s) sp = Inr kis" "map snd kis = sp"
    using need_keys_ok [OF assms] by blast
  have "in_roster (sorted_reverse kis) (physicians s)"
    using assms(2) kis(2) by (simp add: in_roster_def set_sorted_reverse)
  moreover have "keys_ok ic (physicians (snd (remaining_units s, s)))"
    using assms(1) by simp
  ultimately have "\<exists>rs'. final_loop ic ttg m (sorted_reverse kis) (remaining_units s, s) = Inr rs'
                     \<and> unit_moves m n (snd (remaining_units s, s)) (snd rs')"
    by (intro final_loop_ok) simp_all
  then obtain rs' where "final_loop ic ttg m (sorted_reverse kis) (remaining_units s, s) = Inr rs'"
    and "unit_moves m n s (snd rs')"
    by auto
  with True kis(1) show ?thesis by (simp add: final_pass_def)
qed

lemma distribute_ok:
  assumes "keys_ok ic (physicians s)" and "in_roster non_new (physicians s)"
    and "non_new \<noteq> []"
  shows "\<exists>s'. distribute ic m non_new cg r s = Inr s' \<and> unit_moves m n s s'"
proof -
  let ?sp = "sort_key (initial_key ic (physicians s)) non_new"
  have ne: "?sp \<noteq> []" using assms(3) by (metis length_sort length_0_conv)
  have sp: "in_roster ?sp (physicians s)" using assms(2) by (simp add: in_roster_def)
  obtain tag where tag: "target_ladder ic (physicians s) ?sp (int (length non_new)) r = Inr tag"
    using target_ladder_ok [OF ne] by blast
  define ttg where "ttg = target_total_gains_of (physicians s) ?sp
     ((sum_list (map (\<lambda>i. dict_get cg (name (physicians s ! i)) 0) ?sp) + r) div int (length non_new))
     ((sum_list (map (\<lambda>i. dict_get cg (name (physicians s ! i)) 0) ?sp) + r) mod int (length non_new))"
  let ?l0 = "\<lparr>alloc = s, current_gains = cg, remaining_after_targets = remaining_units s,
              made_progress = False\<rparr>"
  obtain l where l: "target_while ic ttg m ?sp (remaining_units s * 3) 0 ?l0 = Inr l"
    and m1: "unit_moves m n s (alloc l)"
    using target_while_ok [of ic ?l0 ?sp ttg m "remaining_units s * 3" 0 n] assms(1) sp by auto
  have "keys_ok ic (physicians (alloc l))" using m1 assms(1) by (rule keys_ok_moves)
  moreover have "in_roster ?sp (physicians (alloc l))" using m1 sp by (rule in_roster_moves)
  ultimately obtain s' where "final_pass ic ttg m ?sp (alloc l) = Inr s'"
    and "unit_moves m n (alloc l) s'"
    using final_pass_ok by blast
  with tag l m1 show ?thesis
    by (auto simp add: distribute_def Let_def ttg_def intro: unit_moves_trans)
qed

lemma in_roster_non_new: "in_roster (non_new_physicians m ps) ps"
  by (simp add: in_roster_def non_new_physicians_def)

lemma phase4_ok:
  assumes "keys_ok ic (physicians s)" and "in_roster team_N (physicians s)"
  shows "\<exists>s'. phase4 ic team_N m s = Inr s' \<and> unit_moves m n s s'"
proof -
  let ?nn = "non_new_physicians m (physicians s)"
  have nn: "in_roster ?nn (physicians s)" by (rule in_roster_non_new)
  obtain cg0 where cg0: "current_gains_of ic (physicians s) ?nn = Inr cg0"
    using current_gains_of_ok [OF assms(1) nn] by blast
  let ?s1 = "snd (n_priority m team_N (cg0, s))"
  have m1: "unit_moves m n s ?s1" using assms(2) by (rule n_priority_moves)
  have k1: "keys_ok ic (physicians ?s1)" using m1 assms(1) by (rule keys_ok_moves)
  have nn1: "in_roster ?nn (physicians ?s1)" using m1 nn by (rule in_roster_moves)
  obtain cg where cg: "current_gains_of ic (physicians ?s1) ?nn = Inr cg"
    using current_gains_of_ok [OF k1 nn1] by blast
  show ?thesis
  proof (cases "remaining_units ?s1 > 0 \<and> ?nn \<noteq> []")
    case False
    with cg0 cg m1 show ?thesis by (auto simp add: phase4_def Let_def)
  next
    case True
    then obtain s' where "distribute ic m ?nn cg (remaining_units ?s1) ?s1 = Inr s'"
      and "unit_moves m n ?s1 s'"
      using distribute_ok [OF k1 nn1] by blast
    with True cg0 cg m1 show ?thesis
      by (auto simp add: phase4_def Let_def intro: unit_moves_trans)
  qed
qed

subsection \<open>Phase 1\<close>

lemma sd_moves_refl: "sd_moves isd s s"
  by (simp add: sd_moves_def)

lemma sd_moves_trans: "sd_moves isd s s' \<Longrightarrow> sd_moves isd s' s'' \<Longrightarrow> sd_moves isd s s''"
  unfolding sd_moves_def by (rule rtranclp_trans)

lemma sd_moves_give:
  assumes "i < length (physicians s)" and "0 < n_step_down_patients s"
    and "can_take_step_down isd (physicians s ! i)"
  shows "sd_moves isd s (give_step_down i s)"
  unfolding sd_moves_def using assms by (intro r_into_rtranclp) (auto simp add: sd_move_def)

lemma sd_moves_induct [consumes 1, case_names base step]:
  assumes "sd_moves isd s s'"
    and "P s"
    and "\<And>t i. sd_moves isd s t \<Longrightarrow> P t \<Longrightarrow> i < length (physicians t) \<Longrightarrow>
           0 < n_step_down_patients t \<Longrightarrow> can_take_step_down isd (physicians t ! i) \<Longrightarrow>
           P (give_step_down i t)"
  shows "P s'"
  using assms(1) unfolding sd_moves_def
proof (induction rule: rtranclp_induct)
  case base
  show ?case by (rule assms(2))
next
  case (step y z)
  from step.hyps(2) obtain i where
    "i < length (physicians y)" "0 < n_step_down_patients y"
    "can_take_step_down isd (physicians y ! i)" "z = give_step_down i y"
    unfolding sd_move_def by blast
  with step.hyps(1) step.IH show ?case
    using assms(3) [of y i] by (simp add: sd_moves_def)
qed

lemma same_but_step_down_add:
  assumes "same_but_step_down ps qs"
  shows "same_but_step_down ps (qs[i := add_patient True (qs ! i)])"
  unfolding same_but_step_down_def
proof (intro conjI allI impI)
  show "length (qs[i := add_patient True (qs ! i)]) = length ps"
    using assms by (simp add: same_but_step_down_def)
next
  fix j assume j: "j < length ps"
  have eq: "qs ! j = (ps ! j)\<lparr>step_down_patients := step_down_patients (qs ! j)\<rparr>"
    and len: "length qs = length ps"
    using assms j by (simp_all add: same_but_step_down_def)
  show "qs[i := add_patient True (qs ! i)] ! j =
          (ps ! j)\<lparr>step_down_patients := step_down_patients (qs[i := add_patient True (qs ! i)] ! j)\<rparr>"
  proof (cases "i = j")
    case True
    have "add_patient True (qs ! j) =
            (ps ! j)\<lparr>step_down_patients := step_down_patients (qs ! j) + 1\<rparr>"
      by (subst eq) (simp add: add_patient_def)
    with True j len show ?thesis by simp
  next
    case False
    with eq show ?thesis by simp
  qed
qed

lemma sd_moves_same:
  assumes "sd_moves isd s s'"
  shows "same_but_step_down (physicians s) (physicians s')"
  using assms
proof (induction rule: sd_moves_induct)
  case base
  show ?case by (simp add: same_but_step_down_def)
next
  case (step t i)
  then show ?case by (simp add: same_but_step_down_add)
qed

lemma same_but_step_down_fields:
  assumes "same_but_step_down ps qs" and "i < length ps"
  shows "name (qs ! i) = name (ps ! i)" and "is_new (qs ! i) = is_new (ps ! i)"
    and "team (qs ! i) = team (ps ! i)" and "is_buffer (qs ! i) = is_buffer (ps ! i)"
    and "is_working (qs ! i) = is_working (ps ! i)"
    and "total_patients (qs ! i) = total_patients (ps ! i)"
proof -
  have eq: "qs ! i = (ps ! i)\<lparr>step_down_patients := step_down_patients (qs ! i)\<rparr>"
    using assms by (simp add: same_but_step_down_def)
  show "name (qs ! i) = name (ps ! i)" by (subst eq) simp
  show "is_new (qs ! i) = is_new (ps ! i)" by (subst eq) simp
  show "team (qs ! i) = team (ps ! i)" by (subst eq) simp
  show "is_buffer (qs ! i) = is_buffer (ps ! i)" by (subst eq) simp
  show "is_working (qs ! i) = is_working (ps ! i)" by (subst eq) simp
  show "total_patients (qs ! i) = total_patients (ps ! i)" by (subst eq) simp
qed

lemma sd_moves_length:
  "sd_moves isd s s' \<Longrightarrow> length (physicians s') = length (physicians s)"
  by (drule sd_moves_same) (simp add: same_but_step_down_def)

lemma sd_moves_pools:
  "sd_moves isd s s' \<Longrightarrow>
   n_total_new_patients s' = n_total_new_patients s \<and>
   n_A_new_patients s' = n_A_new_patients s \<and>
   n_B_new_patients s' = n_B_new_patients s \<and>
   n_N_new_patients s' = n_N_new_patients s"
  by (induction rule: sd_moves_induct) simp_all

lemma sd_moves_sum:
  "sd_moves isd s s' \<Longrightarrow>
   sum_list (map step_down_patients (physicians s')) + n_step_down_patients s' =
   sum_list (map step_down_patients (physicians s)) + n_step_down_patients s"
  by (induction rule: sd_moves_induct) (simp_all add: sum_list_map_update)

lemma sd_moves_totals:
  "sd_moves isd s s' \<Longrightarrow>
   map total_patients (physicians s') = map total_patients (physicians s)"
proof (induction rule: sd_moves_induct)
  case base
  show ?case by simp
next
  case (step t i)
  have "map total_patients (physicians (give_step_down i t)) = map total_patients (physicians t)"
    by (simp add: map_update list_update_same_conv step.hyps(2))
  with step.IH show ?case by simp
qed

lemma sd_moves_nonneg:
  "sd_moves isd s s' \<Longrightarrow> 0 \<le> n_step_down_patients s \<Longrightarrow> 0 \<le> n_step_down_patients s'"
  by (induction rule: sd_moves_induct) simp_all

lemma sd_moves_gain:
  assumes "sd_moves isd s s'"
    and "\<forall>j<length (physicians s).
           step_down_patients (physicians s ! j) - dict_get isd (name (physicians s ! j)) 0 \<le> 1"
  shows "\<forall>j<length (physicians s').
           step_down_patients (physicians s' ! j) - dict_get isd (name (physicians s' ! j)) 0 \<le> 1"
  using assms
proof (induction rule: sd_moves_induct)
  case base
  then show ?case by simp
next
  case (step t i)
  have ih: "\<forall>j<length (physicians t).
              step_down_patients (physicians t ! j) - dict_get isd (name (physicians t ! j)) 0 \<le> 1"
    using step by simp
  show ?case
  proof (intro allI impI)
    fix j assume "j < length (physicians (give_step_down i t))"
    then have j: "j < length (physicians t)" by simp
    show "step_down_patients (physicians (give_step_down i t) ! j)
            - dict_get isd (name (physicians (give_step_down i t) ! j)) 0 \<le> 1"
    proof (cases "i = j")
      case True
      with step.hyps(4) j show ?thesis by (simp add: can_take_step_down_def Let_def)
    next
      case False
      with ih j show ?thesis by simp
    qed
  qed
qed

lemma step_down_loop_moves:
  "in_roster js (physicians s) \<Longrightarrow> sd_moves isd s (step_down_loop isd js s)"
proof (induction js arbitrary: s)
  case Nil
  show ?case by (simp add: sd_moves_refl)
next
  case (Cons j js)
  have j: "j < length (physicians s)" and rest: "in_roster js (physicians s)"
    using Cons.prems by (simp_all add: in_roster_def)
  show ?case
  proof (cases "n_step_down_patients s \<le> 0")
    case True
    then show ?thesis by (simp add: sd_moves_refl)
  next
    case pool: False
    show ?thesis
    proof (cases "can_take_step_down isd (physicians s ! j)")
      case False
      with pool Cons.IH [OF rest] show ?thesis by simp
    next
      case True
      have one: "sd_moves isd s (give_step_down j s)"
        using j pool True by (intro sd_moves_give) simp_all
      have "in_roster js (physicians (give_step_down j s))"
        using rest by (simp add: in_roster_def)
      then have "sd_moves isd (give_step_down j s) (step_down_loop isd js (give_step_down j s))"
        by (rule Cons.IH)
      with one pool True show ?thesis by (simp add: sd_moves_trans)
    qed
  qed
qed

lemma phase1_moves:
  assumes "in_roster team_A (physicians s)" and "in_roster team_B (physicians s)"
  shows "sd_moves isd s (phase1 isd team_A team_B s)"
proof -
  let ?wb = "filter (\<lambda>i. is_working (physicians s ! i)) team_B"
  let ?wa = "filter (\<lambda>i. is_working (physicians s ! i)) team_A"
  let ?s1 = "step_down_loop isd (sort_key (stepdown_key isd (physicians s)) ?wb) s"
  have "in_roster (sort_key (stepdown_key isd (physicians s)) ?wb) (physicians s)"
    using assms(2) by (simp add: in_roster_def)
  then have m1: "sd_moves isd s ?s1" by (rule step_down_loop_moves)
  have "in_roster (sort_key (stepdown_key isd (physicians ?s1)) ?wa) (physicians ?s1)"
    using assms(1) sd_moves_length [OF m1] by (simp add: in_roster_def)
  then have "sd_moves isd ?s1
               (step_down_loop isd (sort_key (stepdown_key isd (physicians ?s1)) ?wa) ?s1)"
    by (rule step_down_loop_moves)
  with m1 show ?thesis by (auto simp add: phase1_def Let_def intro: sd_moves_trans)
qed

lemma in_roster_team: "in_roster (team_members t ps) ps"
  by (simp add: in_roster_def team_members_def)

subsection \<open>Phase 5\<close>

lemma remove_loop_result:
  "remove_loop k p = Inr p' \<Longrightarrow> p' = p\<lparr>total_patients := total_patients p - int k\<rparr>"
proof (induction k arbitrary: p)
  case 0
  then show ?case by simp
next
  case (Suc k)
  from Suc.prems obtain q where q: "remove_patient False p = Inr q" and r: "remove_loop k q = Inr p'"
    by (auto split: sum.splits)
  from q have "q = p\<lparr>total_patients := total_patients p - 1\<rparr>"
    by (auto simp add: remove_patient_def split: if_splits)
  with Suc.IH [OF r] show ?case by simp
qed

lemma remove_loop_ok:
  "int k \<le> total_patients p \<Longrightarrow> \<exists>p'. remove_loop k p = Inr p'"
proof (induction k arbitrary: p)
  case 0
  show ?case by simp
next
  case (Suc k)
  let ?q = "p\<lparr>total_patients := total_patients p - 1\<rparr>"
  have q: "remove_patient False p = Inr ?q"
    using Suc.prems by (simp add: remove_patient_def)
  have "int k \<le> total_patients ?q" using Suc.prems by simp
  then obtain p' where "remove_loop k ?q = Inr p'" using Suc.IH by blast
  with q show ?case by simp
qed

lemma phase5_visit_skip:
  "\<not> phase5_target ic nsn (ps ! i) \<Longrightarrow> phase5_visit ic nsn i ps = Inr ps"
  by (auto simp add: phase5_visit_def phase5_target_def Let_def)

lemma phase5_visit_result:
  assumes "phase5_visit ic nsn i ps = Inr ps'"
  shows "ps' = ps \<or> (phase5_target ic nsn (ps ! i) \<and>
           ps' = ps[i := (ps ! i)\<lparr>total_patients := dict_get ic (name (ps ! i)) (total_patients (ps ! i))\<rparr>])"
proof (cases "phase5_target ic nsn (ps ! i)")
  case False
  with assms show ?thesis by (simp add: phase5_visit_skip)
next
  case True
  let ?v = "dict_get ic (name (ps ! i)) (total_patients (ps ! i))"
  from True assms obtain p' where p': "remove_loop (nat (total_patients (ps ! i) - ?v)) (ps ! i) = Inr p'"
    and ps': "ps' = ps[i := set_total_patients ?v p']"
    by (auto simp add: phase5_visit_def phase5_target_def Let_def split: sum.splits)
  have "set_total_patients ?v p' = (ps ! i)\<lparr>total_patients := ?v\<rparr>"
    by (simp add: remove_loop_result [OF p'] set_total_patients_def)
  with True ps' show ?thesis by simp
qed

lemma phase5_visit_ok:
  assumes "\<forall>k v. ic k = Some v \<longrightarrow> 0 \<le> v"
  shows "\<exists>ps'. phase5_visit ic nsn i ps = Inr ps'"
proof (cases "phase5_target ic nsn (ps ! i)")
  case False
  then show ?thesis by (simp add: phase5_visit_skip)
next
  case True
  let ?v = "dict_get ic (name (ps ! i)) (total_patients (ps ! i))"
  have lt: "?v < total_patients (ps ! i)" using True by (simp add: phase5_target_def)
  have "0 \<le> ?v"
  proof (cases "ic (name (ps ! i))")
    case None
    with lt show ?thesis by (simp add: dict_get_def)
  next
    case (Some v)
    with assms show ?thesis by (simp add: dict_get_def)
  qed
  then have "int (nat (total_patients (ps ! i) - ?v)) \<le> total_patients (ps ! i)"
    using lt by simp
  then obtain p' where "remove_loop (nat (total_patients (ps ! i) - ?v)) (ps ! i) = Inr p'"
    using remove_loop_ok by blast
  with True show ?thesis by (simp add: phase5_visit_def phase5_target_def Let_def)
qed

lemma phase5_loop_ok:
  assumes "\<forall>k v. ic k = Some v \<longrightarrow> 0 \<le> v"
  shows "\<exists>ps'. phase5_loop ic nsn js ps = Inr ps'"
proof (induction js arbitrary: ps)
  case Nil
  show ?case by simp
next
  case (Cons j js)
  obtain ps1 where "phase5_visit ic nsn j ps = Inr ps1"
    using phase5_visit_ok [OF assms] by blast
  with Cons.IH [of ps1] show ?case by auto
qed

lemma phase5_loop_id:
  "\<forall>j\<in>set js. \<not> phase5_target ic nsn (ps ! j) \<Longrightarrow> phase5_loop ic nsn js ps = Inr ps"
  by (induction js) (simp_all add: phase5_visit_skip)

lemma phase5_visit_props:
  assumes "phase5_visit ic nsn i ps = Inr ps'"
  shows "same_but_total ps ps' \<and> (\<forall>j<length ps. total_patients (ps' ! j) \<le> total_patients (ps ! j))"
proof -
  from phase5_visit_result [OF assms] show ?thesis
  proof
    assume "ps' = ps"
    then show ?thesis by (simp add: same_but_total_refl)
  next
    let ?v = "dict_get ic (name (ps ! i)) (total_patients (ps ! i))"
    assume a: "phase5_target ic nsn (ps ! i) \<and> ps' = ps[i := (ps ! i)\<lparr>total_patients := ?v\<rparr>]"
    then have lt: "?v < total_patients (ps ! i)" by (simp add: phase5_target_def)
    have "same_but_total ps ps'"
      unfolding same_but_total_def
    proof (intro conjI allI impI)
      show "length ps' = length ps" using a by simp
    next
      fix j assume "j < length ps"
      then show "ps' ! j = (ps ! j)\<lparr>total_patients := total_patients (ps' ! j)\<rparr>"
        using a by (cases "j = i") simp_all
    qed
    moreover have "\<forall>j<length ps. total_patients (ps' ! j) \<le> total_patients (ps ! j)"
    proof (intro allI impI)
      fix j assume "j < length ps"
      then show "total_patients (ps' ! j) \<le> total_patients (ps ! j)"
        using a lt by (cases "j = i") simp_all
    qed
    ultimately show ?thesis by simp
  qed
qed

lemma same_but_total_trans:
  assumes "same_but_total ps qs" and "same_but_total qs rs"
  shows "same_but_total ps rs"
  unfolding same_but_total_def
proof (intro conjI allI impI)
  show "length rs = length ps" using assms by (simp add: same_but_total_def)
next
  fix i assume i: "i < length ps"
  have 1: "qs ! i = (ps ! i)\<lparr>total_patients := total_patients (qs ! i)\<rparr>"
    using assms(1) i by (simp add: same_but_total_def)
  have 2: "rs ! i = (qs ! i)\<lparr>total_patients := total_patients (rs ! i)\<rparr>"
    using assms i by (simp add: same_but_total_def)
  show "rs ! i = (ps ! i)\<lparr>total_patients := total_patients (rs ! i)\<rparr>"
    by (subst 2, subst 1) simp
qed

lemma phase5_loop_props:
  "phase5_loop ic nsn js ps = Inr ps' \<Longrightarrow>
   same_but_total ps ps' \<and> (\<forall>j<length ps. total_patients (ps' ! j) \<le> total_patients (ps ! j))"
proof (induction js arbitrary: ps)
  case Nil
  then show ?case by (simp add: same_but_total_refl)
next
  case (Cons j js)
  from Cons.prems obtain ps1 where v: "phase5_visit ic nsn j ps = Inr ps1"
    and l: "phase5_loop ic nsn js ps1 = Inr ps'"
    by (auto split: sum.splits)
  note a = phase5_visit_props [OF v] and b = Cons.IH [OF l]
  have len: "length ps1 = length ps" using a by (simp add: same_but_total_def)
  have "same_but_total ps ps'" using a b by (blast intro: same_but_total_trans)
  moreover have "\<forall>k<length ps. total_patients (ps' ! k) \<le> total_patients (ps ! k)"
    using a b len by (metis order_trans)
  ultimately show ?case by simp
qed

lemma phase5_props:
  assumes "phase5 ic nsn s = Inr s'"
  shows "same_but_total (physicians s) (physicians s')"
    and "\<forall>j<length (physicians s). total_patients (physicians s' ! j) \<le> total_patients (physicians s ! j)"
    and "s' = s\<lparr>physicians := physicians s'\<rparr>"
proof -
  from assms obtain ps' where l: "phase5_loop ic nsn [0..<length (physicians s)] (physicians s) = Inr ps'"
    and s': "s' = s\<lparr>physicians := ps'\<rparr>"
    by (auto simp add: phase5_def split: sum.splits)
  from phase5_loop_props [OF l] s'
  show "same_but_total (physicians s) (physicians s')"
    and "\<forall>j<length (physicians s). total_patients (physicians s' ! j) \<le> total_patients (physicians s ! j)"
    by simp_all
  from s' show "s' = s\<lparr>physicians := physicians s'\<rparr>" by simp
qed

lemma phase5_ok:
  assumes "\<forall>k v. ic k = Some v \<longrightarrow> 0 \<le> v"
  shows "\<exists>s'. phase5 ic nsn s = Inr s'"
  using phase5_loop_ok [OF assms, of nsn "[0..<length (physicians s)]" "physicians s"]
  by (auto simp add: phase5_def)

lemma phase5_id:
  assumes "\<forall>j<length (physicians s). \<not> phase5_target ic nsn (physicians s ! j)"
  shows "phase5 ic nsn s = Inr s"
proof -
  have "phase5_loop ic nsn [0..<length (physicians s)] (physicians s) = Inr (physicians s)"
    using assms by (intro phase5_loop_id) simp
  then show ?thesis by (simp add: phase5_def)
qed

subsection \<open>The whole run\<close>

lemma allocate_patients_run:
  obtains s1 s4 where
    "sd_moves (initial_stepdown_counts roster) (initial_state roster nt nA nB nN nsd) s1"
    and "unit_moves m nsn s1 s4"
    and "allocate_patients roster nt nA nB nN nsn mn nsd m =
           (case phase5 (initial_counts roster) nsn s4 of
              Inl e \<Rightarrow> Inl e
            | Inr s5 \<Rightarrow>
                Inr (finish (initial_counts roster) (initial_stepdown_counts roster) s5))"
proof -
  let ?ic = "initial_counts roster" and ?isd = "initial_stepdown_counts roster"
  let ?s0 = "initial_state roster nt nA nB nN nsd"
  let ?s1 = "phase1 ?isd (team_members ''A'' roster) (team_members ''B'' roster) ?s0"
  let ?s2 = "phase2 mn m ?s1"
  let ?s3 = "phase3 nsn m ?s2"
  have ps0: "physicians ?s0 = roster" by (simp add: initial_state_def)
  have m01: "sd_moves ?isd ?s0 ?s1"
    by (rule phase1_moves) (simp_all add: ps0 in_roster_team)
  have len1: "length (physicians ?s1) = length roster"
    using sd_moves_length [OF m01] ps0 by simp
  have m12: "unit_moves m nsn ?s1 ?s2" by (rule phase2_moves)
  have m23: "unit_moves m nsn ?s2 ?s3" by (rule phase3_moves)
  have m13: "unit_moves m nsn ?s1 ?s3" using m12 m23 by (rule unit_moves_trans)
  have len3: "length (physicians ?s3) = length roster"
    using unit_moves_length [OF m13] len1 by simp
  have k1: "keys_ok ?ic (physicians ?s1)"
    unfolding keys_ok_def
  proof (intro allI impI)
    fix i assume "i < length (physicians ?s1)"
    then have i: "i < length roster" using len1 by simp
    have "name (physicians ?s1 ! i) = name (physicians ?s0 ! i)"
      using i ps0 by (intro same_but_step_down_fields(1) [OF sd_moves_same [OF m01]]) simp
    then have "name (physicians ?s1 ! i) = name (roster ! i)" using ps0 by simp
    moreover have "?ic (name (roster ! i)) \<noteq> None"
      using keys_ok_initial_counts [of roster] i by (simp add: keys_ok_def)
    ultimately show "?ic (name (physicians ?s1 ! i)) \<noteq> None" by simp
  qed
  have k3: "keys_ok ?ic (physicians ?s3)" using m13 k1 by (rule keys_ok_moves)
  have "in_roster (team_members ''N'' roster) (physicians ?s3)"
    using in_roster_team [of "''N''" roster] len3 by (simp add: in_roster_def)
  with k3 obtain s4 where s4: "phase4 ?ic (team_members ''N'' roster) m ?s3 = Inr s4"
    and m34: "unit_moves m nsn ?s3 s4"
    using phase4_ok by blast
  have m14: "unit_moves m nsn ?s1 s4" using m13 m34 by (rule unit_moves_trans)
  have "allocate_patients roster nt nA nB nN nsn mn nsd m =
           (case phase5 ?ic nsn s4 of Inl e \<Rightarrow> Inl e | Inr s5 \<Rightarrow> Inr (finish ?ic ?isd s5))"
    unfolding allocate_patients_def Let_def s4 by simp
  with m01 m14 show thesis by (rule that)
qed

lemma remaining_pools_finish [simp]: "remaining_pools (finish ic isd s) = s"
  by (simp add: finish_def Let_def)

lemma phase5_pools:
  assumes "phase5 ic nsn s = Inr s'"
  shows "n_total_new_patients s' = n_total_new_patients s"
    and "n_A_new_patients s' = n_A_new_patients s"
    and "n_B_new_patients s' = n_B_new_patients s"
    and "n_N_new_patients s' = n_N_new_patients s"
    and "n_step_down_patients s' = n_step_down_patients s"
proof -
  note eq = phase5_props(3) [OF assms]
  show "n_total_new_patients s' = n_total_new_patients s" by (subst eq) simp
  show "n_A_new_patients s' = n_A_new_patients s" by (subst eq) simp
  show "n_B_new_patients s' = n_B_new_patients s" by (subst eq) simp
  show "n_N_new_patients s' = n_N_new_patients s" by (subst eq) simp
  show "n_step_down_patients s' = n_step_down_patients s" by (subst eq) simp
qed

lemma allocate_patients_Inr:
  assumes "allocate_patients roster nt nA nB nN nsn mn nsd m = Inr r"
  obtains s1 s4 where
    "sd_moves (initial_stepdown_counts roster) (initial_state roster nt nA nB nN nsd) s1"
    and "unit_moves m nsn s1 s4"
    and "phase5 (initial_counts roster) nsn s4 = Inr (remaining_pools r)"
proof -
  obtain s1 s4 where a: "sd_moves (initial_stepdown_counts roster) (initial_state roster nt nA nB nN nsd) s1"
    and b: "unit_moves m nsn s1 s4"
    and c: "allocate_patients roster nt nA nB nN nsn mn nsd m =
           (case phase5 (initial_counts roster) nsn s4 of
              Inl e \<Rightarrow> Inl e
            | Inr s5 \<Rightarrow>
                Inr (finish (initial_counts roster) (initial_stepdown_counts roster) s5))"
    by (rule allocate_patients_run)
  from c assms obtain s5 where "phase5 (initial_counts roster) nsn s4 = Inr s5"
    and "r = finish (initial_counts roster) (initial_stepdown_counts roster) s5"
    by (auto split: sum.splits)
  then have "phase5 (initial_counts roster) nsn s4 = Inr (remaining_pools r)" by simp
  with a b show thesis by (rule that)
qed

lemma initial_state_simps [simp]:
  "physicians (initial_state roster nt nA nB nN nsd) = roster"
  "n_total_new_patients (initial_state roster nt nA nB nN nsd) = nt"
  "n_A_new_patients (initial_state roster nt nA nB nN nsd) = nA"
  "n_B_new_patients (initial_state roster nt nA nB nN nsd) = nB"
  "n_N_new_patients (initial_state roster nt nA nB nN nsd) = nN"
  "n_step_down_patients (initial_state roster nt nA nB nN nsd) = nsd"
  by (simp_all add: initial_state_def)

lemma run_totals_bound:
  assumes "allocate_patients roster nt nA nB nN nsn mn nsd m = Inr r"
  shows "length (physicians (remaining_pools r)) = length roster"
    and "i < length roster \<Longrightarrow>
         total_patients (physicians (remaining_pools r) ! i) \<le> max (total_patients (roster ! i)) m"
proof -
  from assms obtain s1 s4 where
    a: "sd_moves (initial_stepdown_counts roster) (initial_state roster nt nA nB nN nsd) s1"
    and b: "unit_moves m nsn s1 s4"
    and c: "phase5 (initial_counts roster) nsn s4 = Inr (remaining_pools r)"
    by (rule allocate_patients_Inr)
  have len1: "length (physicians s1) = length roster" using sd_moves_length [OF a] by simp
  have len4: "length (physicians s4) = length roster" using unit_moves_length [OF b] len1 by simp
  show len5: "length (physicians (remaining_pools r)) = length roster"
    using same_but_total_length [OF phase5_props(1) [OF c]] len4 by simp
  assume i: "i < length roster"
  have "total_patients (physicians s1 ! i) = total_patients (roster ! i)"
    using same_but_step_down_fields(6) [OF sd_moves_same [OF a]] i by simp
  moreover have "total_patients (physicians s4 ! i) \<le> max (total_patients (physicians s1 ! i)) m"
    using unit_moves_total_bounds [OF b] i len1 by simp
  moreover have "total_patients (physicians (remaining_pools r) ! i) \<le> total_patients (physicians s4 ! i)"
    using phase5_props(2) [OF c] i len4 by simp
  ultimately show "total_patients (physicians (remaining_pools r) ! i) \<le> max (total_patients (roster ! i)) m"
    by linarith
qed

lemma sum_list_map_nth:
  fixes f :: "'a \<Rightarrow> int"
  shows "sum_list (map f xs) = (\<Sum>i<length xs. f (xs ! i))"
proof -
  have "sum_list (map f xs) = (\<Sum>i = 0..<length (map f xs). map f xs ! i)"
    by (rule sum_list_sum_nth)
  also have "\<dots> = (\<Sum>i<length xs. f (xs ! i))"
    by (rule sum.cong) auto
  finally show ?thesis .
qed

lemma sum_gains:
  fixes f :: "'a \<Rightarrow> int"
  assumes "length ys = length xs"
  shows "(\<Sum>i<length xs. f (ys ! i) - f (xs ! i)) = sum_list (map f ys) - sum_list (map f xs)"
  using assms by (simp add: sum_list_map_nth sum_subtractf)

lemma unit_moves_step_downs:
  assumes "unit_moves m n s s'"
  shows "map step_down_patients (physicians s') = map step_down_patients (physicians s)"
proof (rule nth_equalityI)
  show "length (map step_down_patients (physicians s')) = length (map step_down_patients (physicians s))"
    using unit_moves_length [OF assms] by simp
next
  fix i assume "i < length (map step_down_patients (physicians s'))"
  then have i: "i < length (physicians s)" using unit_moves_length [OF assms] by simp
  then have "step_down_patients (physicians s' ! i) = step_down_patients (physicians s ! i)"
    by (rule same_but_total_fields(6) [OF unit_moves_same [OF assms]])
  with i unit_moves_length [OF assms]
  show "map step_down_patients (physicians s') ! i = map step_down_patients (physicians s) ! i"
    by simp
qed

text \<open>With unique names Phase 5 finds nothing to reverse.\<close>

lemma allocate_patients_distinct:
  assumes "distinct (map name roster)"
  obtains s1 s4 where
    "sd_moves (initial_stepdown_counts roster) (initial_state roster nt nA nB nN nsd) s1"
    and "unit_moves m nsn s1 s4"
    and "allocate_patients roster nt nA nB nN nsn mn nsd m =
           Inr (finish (initial_counts roster) (initial_stepdown_counts roster) s4)"
proof -
  let ?ic = "initial_counts roster"
  obtain s1 s4 where
    a: "sd_moves (initial_stepdown_counts roster) (initial_state roster nt nA nB nN nsd) s1"
    and b: "unit_moves m nsn s1 s4"
    and c: "allocate_patients roster nt nA nB nN nsn mn nsd m =
           (case phase5 ?ic nsn s4 of
              Inl e \<Rightarrow> Inl e
            | Inr s5 \<Rightarrow> Inr (finish ?ic (initial_stepdown_counts roster) s5))"
    by (rule allocate_patients_run)
  have len1: "length (physicians s1) = length roster" using sd_moves_length [OF a] by simp
  have len4: "length (physicians s4) = length roster" using unit_moves_length [OF b] len1 by simp
  have "\<not> phase5_target ?ic nsn (physicians s4 ! j)" if j: "j < length (physicians s4)" for j
  proof
    assume t: "phase5_target ?ic nsn (physicians s4 ! j)"
    have j0: "j < length roster" using j len4 by simp
    have j1: "j < length (physicians s1)" using j0 len1 by simp
    have n1: "name (physicians s1 ! j) = name (roster ! j)"
      and w1: "is_new (physicians s1 ! j) = is_new (roster ! j)"
      and t1: "total_patients (physicians s1 ! j) = total_patients (roster ! j)"
      using same_but_step_down_fields [OF sd_moves_same [OF a]] j0 by simp_all
    have n4: "name (physicians s4 ! j) = name (roster ! j)"
      and w4: "is_new (physicians s4 ! j) = is_new (roster ! j)"
      using same_but_total_fields [OF unit_moves_same [OF b] j1] n1 w1 by simp_all
    have "dict_get ?ic (name (physicians s4 ! j)) (total_patients (physicians s4 ! j))
            = total_patients (roster ! j)"
      using initial_counts_distinct [OF assms j0] n4 by (simp add: dict_get_def)
    with t have "is_new (roster ! j)" "nsn \<le> total_patients (roster ! j)"
      "total_patients (roster ! j) < total_patients (physicians s4 ! j)"
      using w4 by (simp_all add: phase5_target_def)
    moreover have "is_new (physicians s1 ! j) \<and> nsn \<le> total_patients (physicians s1 ! j) \<longrightarrow>
            total_patients (physicians s4 ! j) = total_patients (physicians s1 ! j)"
      using unit_moves_total_bounds [OF b j1] by blast
    ultimately show False using w1 t1 by simp
  qed
  then have "phase5 ?ic nsn s4 = Inr s4" by (intro phase5_id) blast
  with c have "allocate_patients roster nt nA nB nN nsn mn nsd m =
           Inr (finish ?ic (initial_stepdown_counts roster) s4)" by simp
  with a b show thesis by (rule that)
qed

lemma sd_moves_changed:
  assumes "sd_moves isd s s'" and "i < length (physicians s)"
  shows "step_down_patients (physicians s ! i) \<le> step_down_patients (physicians s' ! i) \<and>
         (step_down_patients (physicians s' ! i) \<noteq> step_down_patients (physicians s ! i) \<longrightarrow>
            step_down_patients (physicians s' ! i) - dict_get isd (name (physicians s' ! i)) 0 \<le> 1)"
  using assms
proof (induction rule: sd_moves_induct)
  case base
  show ?case by simp
next
  case (step t j)
  show ?case
  proof (cases "j = i")
    case True
    with step show ?thesis by (simp add: can_take_step_down_def Let_def)
  next
    case False
    with step show ?thesis by simp
  qed
qed

lemma fill_loop_exact:
  assumes "i < length (physicians s)"
  shows "0 \<le> needed \<Longrightarrow> total_patients (physicians s ! i) + needed \<le> m \<Longrightarrow>
   needed \<le> pool_count pl s \<Longrightarrow>
   total_patients (physicians (fill_loop m i needed s) ! i) = total_patients (physicians s ! i) + needed"
  using assms
proof (induction k \<equiv> "nat needed" arbitrary: needed s)
  case 0
  then have "needed = 0" by simp
  then have "fill_loop m i needed s = s" by (intro fill_loop_stop) simp
  with \<open>needed = 0\<close> show ?case by simp
next
  case (Suc k)
  have pos: "needed > 0" using Suc.hyps(2) by simp
  have can: "can_take_patient m (physicians s ! i)"
    using pos Suc.prems(2) by (simp add: can_take_patient_def)
  from pos can show ?case
  proof (cases rule: fill_loop_cases)
    case stop
    with pos Suc.prems(3) show ?thesis by (cases pl) simp_all
  next
    case (take pl')
    let ?t = "take_from pl' i s"
    have "k = nat (needed - 1)" using Suc.hyps(2) by simp
    moreover have "0 \<le> needed - 1" using pos by simp
    moreover have "total_patients (physicians ?t ! i) + (needed - 1) \<le> m"
      using Suc.prems(2,4) by simp
    moreover have "needed - 1 \<le> pool_count pl ?t"
      using Suc.prems(3) by (cases pl; cases pl') simp_all
    moreover have "i < length (physicians ?t)" using Suc.prems(4) by simp
    ultimately have "total_patients (physicians (fill_loop m i (needed - 1) ?t) ! i)
                       = total_patients (physicians ?t ! i) + (needed - 1)"
      by (rule Suc.hyps(1))
    with take(2) Suc.prems(4) show ?thesis by simp
  qed
qed

subsection \<open>Independence of \<open>is_working\<close>\<close>

lemma length_set_working [simp]: "length (set_working w ps) = length ps"
  by (simp add: set_working_def)

lemma nth_set_working [simp]:
  "i < length ps \<Longrightarrow> set_working w ps ! i = (ps ! i)\<lparr>is_working := w i\<rparr>"
  by (simp add: set_working_def)

lemma set_working_update:
  "set_working w (ps[i := q]) = (set_working w ps)[i := q\<lparr>is_working := w i\<rparr>]"
proof (rule nth_equalityI)
  show "length (set_working w (ps[i := q])) = length ((set_working w ps)[i := q\<lparr>is_working := w i\<rparr>])"
    by simp
next
  fix j assume "j < length (set_working w (ps[i := q]))"
  then have "j < length ps" by simp
  then show "set_working w (ps[i := q]) ! j = (set_working w ps)[i := q\<lparr>is_working := w i\<rparr>] ! j"
    by (cases "j = i") simp_all
qed

lemma with_working_simps [simp]:
  "physicians (with_working w s) = set_working w (physicians s)"
  "n_total_new_patients (with_working w s) = n_total_new_patients s"
  "n_A_new_patients (with_working w s) = n_A_new_patients s"
  "n_B_new_patients (with_working w s) = n_B_new_patients s"
  "n_N_new_patients (with_working w s) = n_N_new_patients s"
  "n_step_down_patients (with_working w s) = n_step_down_patients s"
  by (simp_all add: with_working_def)

lemma pool_count_with_working [simp]: "pool_count pl (with_working w s) = pool_count pl s"
  by (cases pl) simp_all

lemma can_take_patient_working [simp]:
  "can_take_patient m (p\<lparr>is_working := b\<rparr>) = can_take_patient m p"
  by (simp add: can_take_patient_def)

lemma take_from_with_working:
  assumes "i < length (physicians s)"
  shows "take_from pl i (with_working w s) = with_working w (take_from pl i s)"
proof -
  have "add_patient False ((physicians s ! i)\<lparr>is_working := w i\<rparr>)
          = (add_patient False (physicians s ! i))\<lparr>is_working := w i\<rparr>"
    by (simp add: add_patient_def)
  then show ?thesis
    using assms by (cases pl) (simp_all add: take_from_def with_working_def set_working_update)
qed

lemma fix_loop_with_working:
  "i < length (physicians s) \<Longrightarrow>
   fix_loop m pl i k (with_working w s) = with_working w (fix_loop m pl i k s)"
proof (induction k arbitrary: s)
  case 0
  show ?case by simp
next
  case (Suc k)
  have "i < length (physicians (take_from pl i s))" using Suc.prems by simp
  then have "fix_loop m pl i k (with_working w (take_from pl i s))
               = with_working w (fix_loop m pl i k (take_from pl i s))"
    by (rule Suc.IH)
  with Suc.prems show ?case by (simp add: take_from_with_working)
qed

lemma phase2_visit_with_working:
  "i < length (physicians s) \<Longrightarrow>
   phase2_visit mn m i (with_working w s) = with_working w (phase2_visit mn m i s)"
  by (simp add: phase2_visit_def Let_def fix_loop_with_working)

lemma fold_with_working:
  assumes comm: "\<And>i t. i < length (physicians t) \<Longrightarrow> f i (with_working w t) = with_working w (f i t)"
    and len: "\<And>i t. i < length (physicians t) \<Longrightarrow> length (physicians (f i t)) = length (physicians t)"
  shows "in_roster js (physicians s) \<Longrightarrow> fold f js (with_working w s) = with_working w (fold f js s)"
proof (induction js arbitrary: s)
  case Nil
  show ?case by simp
next
  case (Cons j js)
  have j: "j < length (physicians s)" and rest: "in_roster js (physicians s)"
    using Cons.prems by (simp_all add: in_roster_def)
  have "in_roster js (physicians (f j s))" using rest len [OF j] by (simp add: in_roster_def)
  then have "fold f js (with_working w (f j s)) = with_working w (fold f js (f j s))"
    by (rule Cons.IH)
  with comm [OF j] show ?case by simp
qed

lemma phase2_with_working:
  "phase2 mn m (with_working w s) = with_working w (phase2 mn m s)"
proof -
  have "fold (phase2_visit mn m) [0..<length (physicians s)] (with_working w s)
          = with_working w (fold (phase2_visit mn m) [0..<length (physicians s)] s)"
  proof (rule fold_with_working)
    fix i and t :: alloc_state assume "i < length (physicians t)"
    then show "length (physicians (phase2_visit mn m i t)) = length (physicians t)"
      by (intro unit_moves_length [of m 0] phase2_visit_moves)
  qed (simp_all add: phase2_visit_with_working in_roster_upt)
  then show ?thesis by (simp add: phase2_def)
qed

lemma fill_loop_with_working:
  "i < length (physicians s) \<Longrightarrow>
   fill_loop m i needed (with_working w s) = with_working w (fill_loop m i needed s)"
proof (induction k \<equiv> "nat needed" arbitrary: needed s)
  case 0
  then have "\<not> (needed > 0 \<and> can_take_patient m (physicians s ! i))"
    "\<not> (needed > 0 \<and> can_take_patient m (physicians (with_working w s) ! i))"
    by simp_all
  then show ?case by (simp add: fill_loop_stop)
next
  case (Suc k)
  have ih: "fill_loop m i (needed - 1) (with_working w (take_from pl i s))
              = with_working w (fill_loop m i (needed - 1) (take_from pl i s))" for pl
    using Suc.hyps(2) Suc.prems by (intro Suc.hyps(1)) simp_all
  show ?case
    unfolding fill_loop.simps [of m i needed "with_working w s"] fill_loop.simps [of m i needed s]
    using Suc.prems by (simp add: take_from_with_working ih)
qed

lemma phase3_visit_with_working:
  "i < length (physicians s) \<Longrightarrow>
   phase3_visit n m i (with_working w s) = with_working w (phase3_visit n m i s)"
  by (simp add: phase3_visit_def Let_def fill_loop_with_working)

lemma phase3_with_working:
  "phase3 n m (with_working w s) = with_working w (phase3 n m s)"
proof -
  have "fold (phase3_visit n m) [0..<length (physicians s)] (with_working w s)
          = with_working w (fold (phase3_visit n m) [0..<length (physicians s)] s)"
  proof (rule fold_with_working)
    fix i and t :: alloc_state assume "i < length (physicians t)"
    then show "length (physicians (phase3_visit n m i t)) = length (physicians t)"
      by (intro unit_moves_length [of m n] phase3_visit_moves)
  qed (simp_all add: phase3_visit_with_working in_roster_upt)
  then show ?thesis by (simp add: phase3_def)
qed

lemma sort_key_cong_on:
  assumes "\<And>x. x \<in> set xs \<Longrightarrow> f x = g x"
  shows "sort_key f xs = sort_key g xs"
  using assms
proof (induction xs)
  case Nil
  show ?case by simp
next
  case (Cons a xs)
  have ih: "sort_key f xs = sort_key g xs" using Cons by simp
  have ins: "insort_key f a ys = insort_key g a ys" if "set ys \<subseteq> set xs" for ys
    using that
  proof (induction ys)
    case Nil
    show ?case by simp
  next
    case (Cons y ys)
    then show ?case using Cons.prems \<open>\<And>x. x \<in> set (a # xs) \<Longrightarrow> f x = g x\<close> by auto
  qed
  have "set (sort_key g xs) \<subseteq> set xs" by simp
  from ins [OF this] ih show ?case by simp
qed

lemma gains_items_with_working:
  "in_roster js ps \<Longrightarrow> gains_items ic (set_working w ps) js = gains_items ic ps js"
  by (induction js) (auto simp add: in_roster_def split: sum.splits)

lemma current_gains_of_with_working:
  "in_roster js ps \<Longrightarrow> current_gains_of ic (set_working w ps) js = current_gains_of ic ps js"
  by (simp add: current_gains_of_def gains_items_with_working)

lemma non_new_with_working:
  "non_new_physicians m (set_working w ps) = non_new_physicians m ps"
proof -
  let ?P = "\<lambda>ps i. \<not> is_new (ps ! i) \<and> can_take_patient m (ps ! i)"
  have inner: "filter (?P (set_working w ps)) [0..<length ps] = filter (?P ps) [0..<length ps]"
    by (intro filter_cong) auto
  have "filter (\<lambda>i. \<not> is_new (set_working w ps ! i)) (filter (?P ps) [0..<length ps])
          = filter (\<lambda>i. \<not> is_new (ps ! i)) (filter (?P ps) [0..<length ps])"
    by (intro filter_cong) auto
  with inner show ?thesis by (simp add: non_new_physicians_def)
qed

lemma n_priority_loop_with_working:
  "in_roster js (physicians s) \<Longrightarrow>
   n_priority_loop m js (cg, with_working w s)
     = (fst (n_priority_loop m js (cg, s)), with_working w (snd (n_priority_loop m js (cg, s))))"
proof (induction js arbitrary: cg s)
  case Nil
  show ?case by simp
next
  case (Cons j js)
  have j: "j < length (physicians s)" and rest: "in_roster js (physicians s)"
    using Cons.prems by (simp_all add: in_roster_def)
  have r1: "in_roster js (physicians (take_from PoolN j s))" using rest by (simp add: in_roster_def)
  have nm: "name (physicians (with_working w s) ! j) = name (physicians s ! j)"
    and ct: "can_take_patient m (physicians (with_working w s) ! j)
               = can_take_patient m (physicians s ! j)"
    using j by simp_all
  show ?case
  proof (cases "n_N_new_patients s \<le> 0")
    case True
    then show ?thesis by simp
  next
    case pool: False
    show ?thesis
    proof (cases "can_take_patient m (physicians s ! j)")
      case False
      with pool ct Cons.IH [OF rest] show ?thesis by simp
    next
      case True
      let ?cg = "cg(name (physicians s ! j) \<mapsto> dict_get cg (name (physicians s ! j)) 0 + 1)"
      have "n_priority_loop m (j # js) (cg, with_working w s)
              = n_priority_loop m js (?cg, take_from PoolN j (with_working w s))"
        using pool True ct nm by simp
      also have "\<dots> = n_priority_loop m js (?cg, with_working w (take_from PoolN j s))"
        using j by (simp only: take_from_with_working)
      also have "\<dots> = (fst (n_priority_loop m js (?cg, take_from PoolN j s)),
                        with_working w (snd (n_priority_loop m js (?cg, take_from PoolN j s))))"
        by (rule Cons.IH [OF r1])
      also have "n_priority_loop m js (?cg, take_from PoolN j s) = n_priority_loop m (j # js) (cg, s)"
        using pool True by simp
      finally show ?thesis .
    qed
  qed
qed

lemma n_priority_with_working:
  assumes "in_roster team_N (physicians s)"
  shows "n_priority m team_N (cg, with_working w s)
     = (fst (n_priority m team_N (cg, s)), with_working w (snd (n_priority m team_N (cg, s))))"
proof -
  let ?P = "\<lambda>ps i. \<not> is_new (ps ! i) \<and> can_take_patient m (ps ! i)"
  have f: "filter (?P (set_working w (physicians s))) team_N = filter (?P (physicians s)) team_N"
    using assms by (intro filter_cong) (auto simp add: in_roster_def)
  have k: "sort_key (\<lambda>i. total_patients (set_working w (physicians s) ! i)) (filter (?P (physicians s)) team_N)
         = sort_key (\<lambda>i. total_patients (physicians s ! i)) (filter (?P (physicians s)) team_N)"
    using assms by (intro sort_key_cong_on) (auto simp add: in_roster_def)
  have r: "in_roster (sort_key (\<lambda>i. total_patients (physicians s ! i)) (filter (?P (physicians s)) team_N))
             (physicians s)"
    using assms by (simp add: in_roster_def)
  show ?thesis
    by (simp add: n_priority_def Let_def f k n_priority_loop_with_working [OF r])
qed

lemma initial_key_with_working:
  "i < length ps \<Longrightarrow> initial_key ic (set_working w ps) i = initial_key ic ps i"
  by (simp add: initial_key_def)

lemma additional_key_with_working:
  "i < length ps \<Longrightarrow> additional_key tag ic (set_working w ps) i = additional_key tag ic ps i"
  by (simp add: additional_key_def)

lemma ladder_pass_with_working:
  "in_roster js ps \<Longrightarrow> ladder_pass (set_working w ps) js tn = ladder_pass ps js tn"
proof (induction js arbitrary: tn)
  case Nil
  show ?case by (cases tn) simp
next
  case (Cons j js)
  then show ?case by (cases tn) (simp add: in_roster_def)
qed

lemma ladder_while_with_working:
  "in_roster sp ps \<Longrightarrow> ladder_while ic (set_working w ps) sp tn = ladder_while ic ps sp tn"
proof (induction ic ps sp tn rule: ladder_while.induct)
  case (1 ic ps sp tn)
  have k: "sort_key (additional_key (fst tn) ic (set_working w ps)) sp
             = sort_key (additional_key (fst tn) ic ps) sp"
    using "1.prems" by (intro sort_key_cong_on) (simp add: in_roster_def additional_key_with_working)
  have r: "in_roster (sort_key (additional_key (fst tn) ic ps) sp) ps"
    using "1.prems" by (simp add: in_roster_def)
  show ?case
    unfolding ladder_while.simps [of ic "set_working w ps" sp tn] ladder_while.simps [of ic ps sp tn]
    using "1.IH" "1.prems" by (simp add: k ladder_pass_with_working [OF r])
qed

lemma target_ladder_with_working:
  assumes "in_roster sp ps"
  shows "target_ladder ic (set_working w ps) sp k r = target_ladder ic ps sp k r"
proof -
  have e: "map (\<lambda>i. (name (set_working w ps ! i), 0::int)) sp = map (\<lambda>i. (name (ps ! i), 0)) sp"
    using assms by (intro map_cong) (simp_all add: in_roster_def)
  show ?thesis
    unfolding target_ladder_def Let_def e
    by (simp add: ladder_while_with_working [OF assms] ladder_pass_with_working [OF assms])
qed

lemma target_total_gains_of_with_working:
  assumes "in_roster sp ps"
  shows "target_total_gains_of (set_working w ps) sp b r = target_total_gains_of ps sp b r"
proof -
  have "map (\<lambda>(k, i). (name (set_working w ps ! i), if int k < r then b + 1 else b)) (enumerate 0 sp)
      = map (\<lambda>(k, i). (name (ps ! i), if int k < r then b + 1 else b)) (enumerate 0 sp)"
    using assms by (intro map_cong) (auto simp add: in_roster_def in_set_enumerate_eq)
  then show ?thesis unfolding target_total_gains_of_def by (rule arg_cong)
qed

lemma gains_sum_with_working:
  assumes "in_roster sp ps"
  shows "map (\<lambda>i. dict_get cg (name (set_working w ps ! i)) 0) sp
           = map (\<lambda>i. dict_get cg (name (ps ! i)) 0) sp"
  using assms by (intro map_cong) (simp_all add: in_roster_def)

lemma on_result_simps [simp]:
  "on_result f (Inl e) = Inl e"
  "on_result f (Inr x) = Inr (f x)"
  by (simp_all add: on_result_def)

lemma loop_with_working_simps [simp]:
  "alloc (loop_with_working w l) = with_working w (alloc l)"
  "current_gains (loop_with_working w l) = current_gains l"
  "remaining_after_targets (loop_with_working w l) = remaining_after_targets l"
  "made_progress (loop_with_working w l) = made_progress l"
  by (simp_all add: loop_with_working_def)

lemma allocate_to_with_working:
  assumes "i < length (physicians (alloc l))"
  shows "allocate_to pl init i (loop_with_working w l) = loop_with_working w (allocate_to pl init i l)"
  using assms
  by (simp add: allocate_to_def Let_def take_from_with_working loop_with_working_def)

lemma other_pools_with_working:
  assumes "i < length (physicians (alloc l))"
  shows "other_pools ttg m init i (loop_with_working w l)
           = loop_with_working w (other_pools ttg m init i l)"
  using assms
  by (simp add: other_pools_def Let_def allocate_to_with_working)

lemma target_step_with_working:
  assumes "i < length (physicians (alloc l))"
  shows "target_step ttg m init i (loop_with_working w l)
           = loop_with_working w (target_step ttg m init i l)"
  using assms
  by (simp add: target_step_def Let_def allocate_to_with_working other_pools_with_working)

lemma target_visit_with_working:
  assumes "i < length (physicians (alloc l))"
  shows "target_visit ic ttg m i (loop_with_working w l)
           = on_result (loop_with_working w) (target_visit ic ttg m i l)"
  using assms
  by (simp add: target_visit_def Let_def target_step_with_working split: sum.splits)

lemma length_allocate_to [simp]:
  "length (physicians (alloc (allocate_to pl init i l))) = length (physicians (alloc l))"
  by simp

lemma length_other_pools [simp]:
  "length (physicians (alloc (other_pools ttg m init i l))) = length (physicians (alloc l))"
  by (simp add: other_pools_def Let_def)

lemma length_target_step [simp]:
  "length (physicians (alloc (target_step ttg m init i l))) = length (physicians (alloc l))"
  by (simp add: target_step_def Let_def)

lemma length_target_visit:
  "target_visit ic ttg m i l = Inr l' \<Longrightarrow>
   length (physicians (alloc l')) = length (physicians (alloc l))"
  by (auto simp add: target_visit_def Let_def split: if_splits sum.splits)

lemma length_target_pass:
  "target_pass ic ttg m js l = Inr l' \<Longrightarrow>
   length (physicians (alloc l')) = length (physicians (alloc l))"
proof (induction js arbitrary: l)
  case Nil
  then show ?case by simp
next
  case (Cons j js)
  from Cons.prems obtain l1 where a: "target_visit ic ttg m j l = Inr l1"
    and b: "target_pass ic ttg m js l1 = Inr l'"
    by (auto split: sum.splits)
  from Cons.IH [OF b] length_target_visit [OF a] show ?case by simp
qed

lemma target_pass_with_working:
  "in_roster js (physicians (alloc l)) \<Longrightarrow>
   target_pass ic ttg m js (loop_with_working w l)
     = on_result (loop_with_working w) (target_pass ic ttg m js l)"
proof (induction js arbitrary: l)
  case Nil
  show ?case by simp
next
  case (Cons j js)
  have j: "j < length (physicians (alloc l))" and rest: "in_roster js (physicians (alloc l))"
    using Cons.prems by (simp_all add: in_roster_def)
  note v = target_visit_with_working [OF j, of ic ttg m w]
  show ?case
  proof (cases "target_visit ic ttg m j l")
    case (Inl e)
    with v show ?thesis by simp
  next
    case (Inr l1)
    have "in_roster js (physicians (alloc l1))"
      using rest length_target_visit [OF Inr] by (simp add: in_roster_def)
    from Cons.IH [OF this] v Inr show ?thesis by simp
  qed
qed

lemma remaining_units_with_working [simp]:
  "remaining_units (with_working w s) = remaining_units s"
  by (simp add: remaining_units_def)

lemma target_while_with_working:
  "in_roster sp (physicians (alloc l)) \<Longrightarrow>
   target_while ic ttg m sp mx it (loop_with_working w l)
     = on_result (loop_with_working w) (target_while ic ttg m sp mx it l)"
proof (induction k \<equiv> "nat (mx - it)" arbitrary: it l)
  case 0
  then have c: "(remaining_after_targets l > 0 \<and> it < mx) = False" by simp
  show ?case
    unfolding target_while.simps [of ic ttg m sp mx it "loop_with_working w l"]
      target_while.simps [of ic ttg m sp mx it l]
    by (simp add: c)
next
  case (Suc k)
  let ?l0 = "l\<lparr>made_progress := False\<rparr>"
  have l0: "(loop_with_working w l)\<lparr>made_progress := False\<rparr> = loop_with_working w ?l0"
    by (simp add: loop_with_working_def)
  have r0: "in_roster sp (physicians (alloc ?l0))" using Suc.prems by simp
  note p = target_pass_with_working [OF r0, of ic ttg m w]
  show ?case
  proof (cases "remaining_after_targets l > 0 \<and> it < mx")
    case False
    then have c: "(remaining_after_targets l > 0 \<and> it < mx) = False" by simp
    show ?thesis
      unfolding target_while.simps [of ic ttg m sp mx it "loop_with_working w l"]
        target_while.simps [of ic ttg m sp mx it l]
      by (simp add: c)
  next
    case True
    then have c: "(remaining_after_targets l > 0 \<and> it < mx) = True" by simp
    show ?thesis
    proof (cases "target_pass ic ttg m sp ?l0")
      case (Inl e)
      with p show ?thesis
        unfolding target_while.simps [of ic ttg m sp mx it "loop_with_working w l"]
          target_while.simps [of ic ttg m sp mx it l] l0
        by (simp add: c)
    next
      case (Inr l1)
      let ?l2 = "l1\<lparr>remaining_after_targets := remaining_units (alloc l1)\<rparr>"
      have l2: "(loop_with_working w l1)\<lparr>remaining_after_targets := remaining_units (alloc l1)\<rparr>
                  = loop_with_working w ?l2"
        by (simp add: loop_with_working_def)
      have "in_roster sp (physicians (alloc ?l2))"
        using Suc.prems length_target_pass [OF Inr] by (simp add: in_roster_def)
      moreover have "k = nat (mx - (it + 1))" using Suc.hyps(2) by simp
      ultimately have ih: "target_while ic ttg m sp mx (it + 1) (loop_with_working w ?l2)
                  = on_result (loop_with_working w) (target_while ic ttg m sp mx (it + 1) ?l2)"
        using Suc.hyps(1) by blast
      from p Inr ih show ?thesis
        unfolding target_while.simps [of ic ttg m sp mx it "loop_with_working w l"]
          target_while.simps [of ic ttg m sp mx it l] l0
        by (simp add: l2 c)
    qed
  qed
qed

lemma need_keys_with_working:
  "in_roster js ps \<Longrightarrow> need_keys ic ttg (set_working w ps) js = need_keys ic ttg ps js"
  by (induction js) (auto simp add: in_roster_def split: sum.splits)

lemma final_step_with_working:
  assumes "i < length (physicians (snd rs))"
  shows "final_step ttg m init i (fst rs, with_working w (snd rs))
           = (fst (final_step ttg m init i rs), with_working w (snd (final_step ttg m init i rs)))"
  using assms by (simp add: final_step_def Let_def take_from_with_working)

lemma length_final_step [simp]:
  "length (physicians (snd (final_step ttg m init i rs))) = length (physicians (snd rs))"
  by (simp add: final_step_def Let_def)

lemma final_loop_with_working:
  "in_roster js (physicians (snd rs)) \<Longrightarrow>
   final_loop ic ttg m js (fst rs, with_working w (snd rs))
     = on_result (\<lambda>r. (fst r, with_working w (snd r))) (final_loop ic ttg m js rs)"
proof (induction js arbitrary: rs)
  case Nil
  show ?case by simp
next
  case (Cons j js)
  have j: "j < length (physicians (snd rs))" and rest: "in_roster js (physicians (snd rs))"
    using Cons.prems by (simp_all add: in_roster_def)
  have step: "final_loop ic ttg m js (final_step ttg m init j (fst rs, with_working w (snd rs)))
     = on_result (\<lambda>r. (fst r, with_working w (snd r)))
         (final_loop ic ttg m js (final_step ttg m init j rs))" for init
  proof -
    have "in_roster js (physicians (snd (final_step ttg m init j rs)))"
      using rest by (simp add: in_roster_def)
    from Cons.IH [OF this] show ?thesis
      by (simp add: final_step_with_working [OF j])
  qed
  show ?case
    using j Cons.IH [OF rest] step
    by (simp split: sum.splits)
qed

lemma final_pass_with_working:
  assumes "in_roster sp (physicians s)"
  shows "final_pass ic ttg m sp (with_working w s) = on_result (with_working w) (final_pass ic ttg m sp s)"
proof (cases "remaining_units s > 0")
  case False
  then show ?thesis by (simp add: final_pass_def)
next
  case True
  note nk = need_keys_with_working [OF assms, of ic ttg w]
  show ?thesis
  proof (cases "need_keys ic ttg (physicians s) sp")
    case (Inl e)
    with True nk show ?thesis by (simp add: final_pass_def)
  next
    case (Inr kis)
    have "map snd kis = sp"
      using Inr assms by (induction sp arbitrary: kis) (auto simp add: in_roster_def split: sum.splits)
    then have "in_roster (sorted_reverse kis) (physicians (snd (remaining_units s, s)))"
      using assms by (simp add: in_roster_def set_sorted_reverse)
    from final_loop_with_working [OF this, of ic ttg m w] True nk Inr show ?thesis
      by (cases "final_loop ic ttg m (sorted_reverse kis) (remaining_units s, s)")
         (simp_all add: final_pass_def)
  qed
qed

lemma length_target_while:
  "target_while ic ttg m sp mx it l = Inr l' \<Longrightarrow>
   length (physicians (alloc l')) = length (physicians (alloc l))"
proof (induction k \<equiv> "nat (mx - it)" arbitrary: it l)
  case 0
  then have c: "(remaining_after_targets l > 0 \<and> it < mx) = False" by simp
  from "0.prems" show ?case
    unfolding target_while.simps [of ic ttg m sp mx it l] by (simp add: c)
next
  case (Suc k)
  show ?case
  proof (cases "remaining_after_targets l > 0 \<and> it < mx")
    case False
    then have c: "(remaining_after_targets l > 0 \<and> it < mx) = False" by simp
    from Suc.prems show ?thesis
      unfolding target_while.simps [of ic ttg m sp mx it l] by (simp add: c)
  next
    case True
    then have c: "(remaining_after_targets l > 0 \<and> it < mx) = True" by simp
    from Suc.prems obtain l1 where p: "target_pass ic ttg m sp (l\<lparr>made_progress := False\<rparr>) = Inr l1"
      and rest: "(if \<not> made_progress l1 then Inr l1
                  else target_while ic ttg m sp mx (it + 1)
                         (l1\<lparr>remaining_after_targets := remaining_units (alloc l1)\<rparr>)) = Inr l'"
      unfolding target_while.simps [of ic ttg m sp mx it l]
      by (auto simp add: c split: sum.splits)
    have len1: "length (physicians (alloc l1)) = length (physicians (alloc l))"
      using length_target_pass [OF p] by simp
    show ?thesis
    proof (cases "made_progress l1")
      case False
      with rest len1 show ?thesis by simp
    next
      case True
      with rest have w: "target_while ic ttg m sp mx (it + 1)
                         (l1\<lparr>remaining_after_targets := remaining_units (alloc l1)\<rparr>) = Inr l'"
        by simp
      have "k = nat (mx - (it + 1))" using Suc.hyps(2) by simp
      from Suc.hyps(1) [OF this w] len1 show ?thesis by simp
    qed
  qed
qed

lemma distribute_with_working:
  assumes "in_roster non_new (physicians s)"
  shows "distribute ic m non_new cg r (with_working w s)
           = on_result (with_working w) (distribute ic m non_new cg r s)"
proof -
  let ?ps = "physicians s"
  let ?sp = "sort_key (initial_key ic ?ps) non_new"
  have k: "sort_key (initial_key ic (set_working w ?ps)) non_new = ?sp"
    using assms by (intro sort_key_cong_on) (simp add: in_roster_def initial_key_with_working)
  have sp: "in_roster ?sp ?ps" using assms by (simp add: in_roster_def)
  note tl = target_ladder_with_working [OF sp, of ic w "int (length non_new)" r]
  note gs = gains_sum_with_working [OF sp, of cg w]
  note tg = target_total_gains_of_with_working [OF sp, of w]
  define ttg where "ttg = target_total_gains_of ?ps ?sp
     ((sum_list (map (\<lambda>i. dict_get cg (name (?ps ! i)) 0) ?sp) + r) div int (length non_new))
     ((sum_list (map (\<lambda>i. dict_get cg (name (?ps ! i)) 0) ?sp) + r) mod int (length non_new))"
  let ?l0 = "\<lparr>alloc = s, current_gains = cg, remaining_after_targets = remaining_units s,
              made_progress = False\<rparr>"
  have l0: "\<lparr>alloc = with_working w s, current_gains = cg,
             remaining_after_targets = remaining_units s, made_progress = False\<rparr>
            = loop_with_working w ?l0"
    by (simp add: loop_with_working_def)
  have "in_roster ?sp (physicians (alloc ?l0))" using sp by simp
  note tw = target_while_with_working [OF this, of ic ttg m "remaining_units s * 3" 0 w]
  show ?thesis
  proof (cases "target_ladder ic ?ps ?sp (int (length non_new)) r")
    case (Inl e)
    with tl show ?thesis by (simp add: distribute_def Let_def k)
  next
    case tag: (Inr tag)
    show ?thesis
    proof (cases "target_while ic ttg m ?sp (remaining_units s * 3) 0 ?l0")
      case (Inl e)
      with tl tag tw show ?thesis
        by (simp add: distribute_def Let_def k gs tg l0 ttg_def [symmetric])
    next
      case (Inr l)
      have "in_roster ?sp (physicians (alloc l))"
        using sp length_target_while [OF Inr] by (simp add: in_roster_def)
      from final_pass_with_working [OF this, of ic ttg m w] tl tag tw Inr show ?thesis
        by (simp add: distribute_def Let_def k gs tg l0 ttg_def [symmetric])
    qed
  qed
qed


lemma phase4_with_working:
  assumes "in_roster team_N (physicians s)"
  shows "phase4 ic team_N m (with_working w s) = on_result (with_working w) (phase4 ic team_N m s)"
proof -
  let ?nn = "non_new_physicians m (physicians s)"
  have nn: "in_roster ?nn (physicians s)" by (rule in_roster_non_new)
  note g0 = current_gains_of_with_working [OF nn, of ic w]
  show ?thesis
  proof (cases "current_gains_of ic (physicians s) ?nn")
    case (Inl e)
    with g0 show ?thesis by (simp add: phase4_def Let_def non_new_with_working)
  next
    case cg0: (Inr cg0)
    let ?s1 = "snd (n_priority m team_N (cg0, s))"
    have s1: "snd (n_priority m team_N (cg0, with_working w s)) = with_working w ?s1"
      by (simp add: n_priority_with_working [OF assms])
    have len1: "length (physicians ?s1) = length (physicians s)"
      by (intro unit_moves_length [of m 0] n_priority_moves assms)
    have nn1: "in_roster ?nn (physicians ?s1)" using nn len1 by (simp add: in_roster_def)
    note g1 = current_gains_of_with_working [OF nn1, of ic w]
    show ?thesis
    proof (cases "current_gains_of ic (physicians ?s1) ?nn")
      case (Inl e)
      with g0 cg0 g1 show ?thesis by (simp add: phase4_def Let_def non_new_with_working s1)
    next
      case cg: (Inr cg)
      note d = distribute_with_working [OF nn1, of ic m cg "remaining_units ?s1" w]
      from g0 cg0 g1 cg d show ?thesis
        by (simp add: phase4_def Let_def non_new_with_working s1)
    qed
  qed
qed

lemma team_members_with_working:
  "team_members t (set_working w ps) = team_members t ps"
  unfolding team_members_def by (intro filter_cong) auto

subsection \<open>Workers at or above the maximum\<close>

lemma run_full_unchanged:
  assumes "distinct (map name roster)"
    and "allocate_patients roster nt nA nB nN nsn mn nsd m = Inr r"
    and "i < length roster" and "m \<le> total_patients (roster ! i)"
  shows "total_patients (physicians (remaining_pools r) ! i) = total_patients (roster ! i)"
proof -
  from assms(1) obtain s1 s4 where
    a: "sd_moves (initial_stepdown_counts roster) (initial_state roster nt nA nB nN nsd) s1"
    and b: "unit_moves m nsn s1 s4"
    and c: "allocate_patients roster nt nA nB nN nsn mn nsd m =
           Inr (finish (initial_counts roster) (initial_stepdown_counts roster) s4)"
    by (rule allocate_patients_distinct)
  from c assms(2) have r: "remaining_pools r = s4" by auto
  have i1: "i < length (physicians s1)" using sd_moves_length [OF a] assms(3) by simp
  have t1: "total_patients (physicians s1 ! i) = total_patients (roster ! i)"
    using same_but_step_down_fields(6) [OF sd_moves_same [OF a]] assms(3) by simp
  have "total_patients (physicians s1 ! i) \<le> total_patients (physicians s4 ! i) \<and>
        total_patients (physicians s4 ! i) \<le> max (total_patients (physicians s1 ! i)) m"
    using unit_moves_total_bounds [OF b i1] by blast
  with t1 assms(4) r show ?thesis by simp
qed

subsection \<open>The turn of one physician in Phases 2 and 3\<close>

lemma fold_keeps:
  assumes "\<And>j t. j \<in> set js \<Longrightarrow> physicians t ! i = p \<Longrightarrow> physicians (f j t) ! i = p"
  shows "physicians s ! i = p \<Longrightarrow> physicians (fold f js s) ! i = p"
  using assms
proof (induction js arbitrary: s)
  case Nil
  then show ?case by simp
next
  case (Cons j js)
  have "physicians (f j s) ! i = p" using Cons.prems by simp
  then have "physicians (fold f js (f j s)) ! i = p"
    using Cons.prems(2) by (intro Cons.IH) simp_all
  then show ?case by simp
qed

lemma fix_loop_other:
  "i \<noteq> j \<Longrightarrow> physicians (fix_loop m pl j k s) ! i = physicians s ! i"
  by (induction k arbitrary: s) simp_all

lemma phase2_visit_keeps_new:
  assumes "is_new (physicians s ! i)"
  shows "physicians (phase2_visit mn m j s) ! i = physicians s ! i"
proof (cases "i = j")
  case True
  with assms show ?thesis by (simp add: phase2_visit_def Let_def)
next
  case False
  then show ?thesis by (simp add: phase2_visit_def Let_def fix_loop_other)
qed

lemma phase2_keeps_new:
  assumes "is_new (physicians s ! i)"
  shows "physicians (phase2 mn m s) ! i = physicians s ! i"
  unfolding phase2_def
proof (rule fold_keeps)
  fix j and t :: alloc_state
  assume "physicians t ! i = physicians s ! i"
  with assms phase2_visit_keeps_new [of t i mn m j]
  show "physicians (phase2_visit mn m j t) ! i = physicians s ! i" by simp
qed simp

lemma fill_loop_other:
  "i \<noteq> j \<Longrightarrow> physicians (fill_loop m j needed s) ! i = physicians s ! i"
proof (induction k \<equiv> "nat needed" arbitrary: needed s)
  case 0
  then have "fill_loop m j needed s = s" by (intro fill_loop_stop) simp
  then show ?case by simp
next
  case (Suc k)
  have pos: "needed > 0" using Suc.hyps(2) by simp
  show ?case
  proof (cases "can_take_patient m (physicians s ! j)")
    case False
    then have "fill_loop m j needed s = s" by (intro fill_loop_stop) simp
    then show ?thesis by simp
  next
    case True
    from pos True show ?thesis
    proof (cases rule: fill_loop_cases)
      case stop
      then show ?thesis by simp
    next
      case (take pl)
      have "k = nat (needed - 1)" using Suc.hyps(2) by simp
      from Suc.hyps(1) [OF this Suc.prems, of "take_from pl j s"] Suc.prems
      show ?thesis unfolding take(2) by simp
    qed
  qed
qed

lemma phase3_visit_other:
  "i \<noteq> j \<Longrightarrow> physicians (phase3_visit n m j s) ! i = physicians s ! i"
  by (simp add: phase3_visit_def Let_def fill_loop_other)

lemma fold_phase3_other:
  assumes "i \<notin> set js"
  shows "physicians (fold (phase3_visit n m) js s) ! i = physicians s ! i"
proof (rule fold_keeps)
  fix j and t :: alloc_state
  assume "j \<in> set js" and "physicians t ! i = physicians s ! i"
  with assms phase3_visit_other [of i j n m t]
  show "physicians (phase3_visit n m j t) ! i = physicians s ! i" by auto
qed simp

lemma fold_phase3_length:
  assumes "in_roster js (physicians s)"
  shows "length (physicians (fold (phase3_visit n m) js s)) = length (physicians s)"
proof -
  have "unit_moves m n s (fold (phase3_visit n m) js s)"
    by (rule fold_unit_moves) (simp_all add: phase3_visit_moves assms)
  then show ?thesis by (rule unit_moves_length)
qed

lemma phase3_split:
  assumes "i < length (physicians s)"
  shows "phase3 n m s =
           fold (phase3_visit n m) [Suc i..<length (physicians s)]
             (phase3_visit n m i (phase3_turn n m i s))"
proof -
  have "[0..<length (physicians s)] = [0..<i] @ [i..<length (physicians s)]"
    using assms upt_add_eq_append [of 0 i "length (physicians s) - i"] by simp
  also have "[i..<length (physicians s)] = i # [Suc i..<length (physicians s)]"
    using assms by (rule upt_conv_Cons)
  finally show ?thesis by (simp add: phase3_def phase3_turn_def)
qed

lemma before_phase3_keeps_new:
  assumes "i < length roster" and "is_new (roster ! i)"
  shows "length (physicians (before_phase3 roster nt nA nB nN mn nsd m)) = length roster"
    and "is_new (physicians (before_phase3 roster nt nA nB nN mn nsd m) ! i)"
    and "team (physicians (before_phase3 roster nt nA nB nN mn nsd m) ! i) = team (roster ! i)"
    and "total_patients (physicians (before_phase3 roster nt nA nB nN mn nsd m) ! i)
           = total_patients (roster ! i)"
proof -
  let ?s0 = "initial_state roster nt nA nB nN nsd"
  let ?s1 = "phase1 (initial_stepdown_counts roster) (team_members ''A'' roster)
               (team_members ''B'' roster) ?s0"
  have m01: "sd_moves (initial_stepdown_counts roster) ?s0 ?s1"
    by (rule phase1_moves) (simp_all add: in_roster_team)
  have len1: "length (physicians ?s1) = length roster" using sd_moves_length [OF m01] by simp
  note f1 = same_but_step_down_fields [OF sd_moves_same [OF m01], of i]
  have new1: "is_new (physicians ?s1 ! i)" using f1(2) assms by simp
  have keep: "physicians (phase2 mn m ?s1) ! i = physicians ?s1 ! i"
    using new1 by (rule phase2_keeps_new)
  have len2: "length (physicians (phase2 mn m ?s1)) = length (physicians ?s1)"
    by (rule unit_moves_length [OF phase2_moves [of m 0]])
  show "length (physicians (before_phase3 roster nt nA nB nN mn nsd m)) = length roster"
    using len1 len2 by (simp add: before_phase3_def)
  show "is_new (physicians (before_phase3 roster nt nA nB nN mn nsd m) ! i)"
    using keep new1 by (simp add: before_phase3_def)
  show "team (physicians (before_phase3 roster nt nA nB nN mn nsd m) ! i) = team (roster ! i)"
    using keep f1(3) assms(1) by (simp add: before_phase3_def)
  show "total_patients (physicians (before_phase3 roster nt nA nB nN mn nsd m) ! i)
           = total_patients (roster ! i)"
    using keep f1(6) assms(1) by (simp add: before_phase3_def)
qed

lemma allocate_patients_phase3:
  "allocate_patients roster nt nA nB nN nsn mn nsd m =
     (case phase4 (initial_counts roster) (team_members ''N'' roster) m
             (phase3 nsn m (before_phase3 roster nt nA nB nN mn nsd m)) of
        Inl e \<Rightarrow> Inl e
      | Inr s4 \<Rightarrow>
          (case phase5 (initial_counts roster) nsn s4 of
             Inl e \<Rightarrow> Inl e
           | Inr s5 \<Rightarrow>
               Inr (finish (initial_counts roster) (initial_stepdown_counts roster) s5)))"
  by (simp add: allocate_patients_def before_phase3_def Let_def)

lemma crowded_run:
  "allocate_patients crowded 10 5 5 0 5 10 0 1000 =
     Inr (finish (initial_counts crowded) (initial_stepdown_counts crowded) crowded_after)"
  by code_simp

lemma ward_run:
  "allocate_patients ward 30 10 10 10 10 10 3 20 =
     Inr (finish (initial_counts ward) (initial_stepdown_counts ward) ward_after)"
  by code_simp

section \<open>The claims\<close>

text \<open>
  C1. Conservation: for a roster with unique names the call returns, the gains of
  \<open>total_patients\<close> over all workers plus the returned \<open>n_total_new_patients\<close> equal the
  input \<open>n_total_new_patients\<close>, and the step-down gains plus the returned
  \<open>n_step_down_patients\<close> equal the input \<open>n_step_down_patients\<close>.
\<close>

theorem conservation:
  assumes "distinct (map name roster)"
  shows "\<exists>r. allocate_patients roster nt nA nB nN nsn mn nsd m = Inr r \<and>
           length (physicians (remaining_pools r)) = length roster \<and>
           (\<Sum>i<length roster. total_patients (physicians (remaining_pools r) ! i)
                                  - total_patients (roster ! i))
             + n_total_new_patients (remaining_pools r) = nt \<and>
           (\<Sum>i<length roster. step_down_patients (physicians (remaining_pools r) ! i)
                                  - step_down_patients (roster ! i))
             + n_step_down_patients (remaining_pools r) = nsd"
proof -
  let ?s0 = "initial_state roster nt nA nB nN nsd"
  from assms obtain s1 s4 where
    a: "sd_moves (initial_stepdown_counts roster) ?s0 s1"
    and b: "unit_moves m nsn s1 s4"
    and c: "allocate_patients roster nt nA nB nN nsn mn nsd m =
           Inr (finish (initial_counts roster) (initial_stepdown_counts roster) s4)"
    by (rule allocate_patients_distinct)
  have len1: "length (physicians s1) = length roster" using sd_moves_length [OF a] by simp
  have len4: "length (physicians s4) = length roster" using unit_moves_length [OF b] len1 by simp
  have "sum_list (map total_patients (physicians s4)) + n_total_new_patients s4 =
          sum_list (map total_patients (physicians s1)) + n_total_new_patients s1"
    using b by (rule unit_moves_total_sum)
  also have "\<dots> = sum_list (map total_patients roster) + nt"
    using sd_moves_totals [OF a] sd_moves_pools [OF a] by simp
  finally have tot: "(\<Sum>i<length roster. total_patients (physicians s4 ! i) - total_patients (roster ! i))
                  + n_total_new_patients s4 = nt"
    using len4 by (simp add: sum_gains)
  have "sum_list (map step_down_patients (physicians s4)) + n_step_down_patients s4 =
          sum_list (map step_down_patients (physicians s1)) + n_step_down_patients s1"
    using unit_moves_step_downs [OF b] unit_moves_step_down [OF b] by simp
  also have "\<dots> = sum_list (map step_down_patients roster) + nsd"
    using sd_moves_sum [OF a] by simp
  finally have sd: "(\<Sum>i<length roster. step_down_patients (physicians s4 ! i) - step_down_patients (roster ! i))
                  + n_step_down_patients s4 = nsd"
    using len4 by (simp add: sum_gains)
  from c len4 tot sd show ?thesis by simp
qed

theorem conservation_witness:
  "distinct (map name ward) \<and>
   allocate_patients ward 30 10 10 10 10 10 3 20 =
     Inr (finish (initial_counts ward) (initial_stepdown_counts ward) ward_after) \<and>
   (\<Sum>i<length ward. total_patients (physicians ward_after ! i) - total_patients (ward ! i))
     + n_total_new_patients ward_after = 30 \<and>
   (\<Sum>i<length ward. step_down_patients (physicians ward_after ! i)
                        - step_down_patients (ward ! i))
     + n_step_down_patients ward_after = 3"
proof -
  have h: "distinct (map name ward)" by (simp add: ward_def doc_def)
  from conservation [OF h, of 30 10 10 10 10 10 3 20] h show ?thesis
    by (simp add: ward_run)
qed

text \<open>
  C2 as stated, that every worker's \<open>total_patients\<close> is at most \<open>maximum_patients\<close> at
  the end even when it was above before, fails: a worker who starts at 1500 with a maximum
  of 1000 ends at 1500.
\<close>

theorem capacity_counterexample:
  "final_totals (allocate_patients [doc ''a'' ''B'' False False True 1500 0] 0 5 5 5 5 10 3 1000)
     = Inr [1500]"
  by code_simp

text \<open>
  C2, as amended. When the call returns, every worker's \<open>total_patients\<close> is at most the
  larger of its value before the call and \<open>maximum_patients\<close>; and when the names of the
  roster are unique, a worker whose total was at or above \<open>maximum_patients\<close> before the
  call has exactly that total at the end.
\<close>

theorem capacity_bound:
  assumes "allocate_patients roster nt nA nB nN nsn mn nsd m = Inr r"
  shows "length (physicians (remaining_pools r)) = length roster \<and>
         (\<forall>i<length roster.
            total_patients (physicians (remaining_pools r) ! i)
              \<le> max (total_patients (roster ! i)) m) \<and>
         (distinct (map name roster) \<longrightarrow>
            (\<forall>i<length roster. m \<le> total_patients (roster ! i) \<longrightarrow>
               total_patients (physicians (remaining_pools r) ! i)
                 = total_patients (roster ! i)))"
  using run_totals_bound [OF assms] run_full_unchanged [OF _ assms] by blast

theorem capacity_bound_witness:
  "allocate_patients crowded 10 5 5 0 5 10 0 1000 =
     Inr (finish (initial_counts crowded) (initial_stepdown_counts crowded) crowded_after) \<and>
   distinct (map name crowded) \<and>
   length (physicians crowded_after) = length crowded \<and>
   1000 \<le> total_patients (crowded ! 0) \<and>
   total_patients (physicians crowded_after ! 0) = total_patients (crowded ! 0) \<and>
   total_patients (physicians crowded_after ! 0) \<le> max (total_patients (crowded ! 0)) 1000 \<and>
   total_patients (physicians crowded_after ! 1) \<le> max (total_patients (crowded ! 1)) 1000"
proof -
  have h: "(0::nat) < length crowded" "(1::nat) < length crowded"
    "distinct (map name crowded)" "1000 \<le> total_patients (crowded ! 0)"
    by (simp_all add: crowded_def doc_def)
  with capacity_bound [OF crowded_run] crowded_run show ?thesis by simp
qed

text \<open>
  C3 as stated, that Phase 1 gives a step-down unit only to a worker below the maximum,
  fails: a working Team B worker whose total equals the maximum of 20 receives the
  step-down unit.
\<close>

theorem phase1_capacity_counterexample:
  "final_totals (allocate_patients [doc ''a'' ''B'' False False True 20 0] 0 0 0 0 5 10 1 20)
     = Inr [20] \<and>
   final_step_downs (allocate_patients [doc ''a'' ''B'' False False True 20 0] 0 0 0 0 5 10 1 20)
     = Inr [1]"
  by code_simp

text \<open>
  C3, as amended. In Phase 1 a worker's step-down count changes only if its step-down gain
  since the snapshot was below 1, and the gain is then at most 1; \<open>total_patients\<close> is
  not changed, and it is not compared with the maximum.
\<close>

theorem phase1_eligibility:
  assumes "i < length (physicians s)"
    and "s' = phase1 isd (team_members ''A'' (physicians s)) (team_members ''B'' (physicians s)) s"
    and "step_down_patients (physicians s' ! i) \<noteq> step_down_patients (physicians s ! i)"
  shows "step_down_patients (physicians s ! i) - dict_get isd (name (physicians s ! i)) 0 < 1 \<and>
         step_down_patients (physicians s' ! i) - dict_get isd (name (physicians s ! i)) 0 \<le> 1 \<and>
         total_patients (physicians s' ! i) = total_patients (physicians s ! i)"
proof -
  have mv: "sd_moves isd s s'"
    unfolding assms(2) by (rule phase1_moves) (simp_all add: in_roster_team)
  note f = same_but_step_down_fields [OF sd_moves_same [OF mv] assms(1)]
  from sd_moves_changed [OF mv assms(1)] assms(3) f(1,6) show ?thesis by auto
qed

theorem phase1_eligibility_witness:
  "(4::nat) < length (physicians (initial_state ward 30 10 10 10 3)) \<and>
   step_down_patients (physicians (phase1 (initial_stepdown_counts ward)
       (team_members ''A'' ward) (team_members ''B'' ward) (initial_state ward 30 10 10 10 3)) ! 4)
     \<noteq> step_down_patients (ward ! 4) \<and>
   step_down_patients (ward ! 4) - dict_get (initial_stepdown_counts ward) (name (ward ! 4)) 0 < 1"
proof -
  let ?s = "initial_state ward 30 10 10 10 3"
  let ?s' = "phase1 (initial_stepdown_counts ward) (team_members ''A'' (physicians ?s))
               (team_members ''B'' (physicians ?s)) ?s"
  have h1: "4 < length (physicians ?s)" by (simp add: ward_def)
  have h3: "step_down_patients (physicians ?s' ! 4) \<noteq> step_down_patients (physicians ?s ! 4)"
    by code_simp
  from phase1_eligibility [OF h1 refl h3] h1 h3 show ?thesis by simp
qed

text \<open>
  C4 as stated, that none of the five returned counters is negative, fails when the total
  pool understates the team pools: with a total of 0 and a Team A pool of 5 the returned
  total is -5.
\<close>

theorem pool_counters_counterexample:
  "final_pools (allocate_patients [doc ''a'' ''A'' False False True 5 0] 0 5 0 0 5 10 0 20)
     = Inr (- 5, 0, 0, 0, 0)"
  by code_simp

text \<open>
  C4, as amended. When the call returns and the inputs \<open>n_A_new_patients\<close>,
  \<open>n_B_new_patients\<close>, \<open>n_N_new_patients\<close> and \<open>n_step_down_patients\<close> are not negative,
  these four counters are not negative at the end; the returned \<open>n_total_new_patients\<close> is
  not negative when the input total is at least the sum of the three team pools.
\<close>

theorem pool_counters_nonneg:
  assumes "allocate_patients roster nt nA nB nN nsn mn nsd m = Inr r"
    and "0 \<le> nA" and "0 \<le> nB" and "0 \<le> nN" and "0 \<le> nsd"
  shows "0 \<le> n_A_new_patients (remaining_pools r) \<and>
         0 \<le> n_B_new_patients (remaining_pools r) \<and>
         0 \<le> n_N_new_patients (remaining_pools r) \<and>
         0 \<le> n_step_down_patients (remaining_pools r) \<and>
         (nA + nB + nN \<le> nt \<longrightarrow> 0 \<le> n_total_new_patients (remaining_pools r))"
proof -
  from assms(1) obtain s1 s4 where
    a: "sd_moves (initial_stepdown_counts roster) (initial_state roster nt nA nB nN nsd) s1"
    and b: "unit_moves m nsn s1 s4"
    and c: "phase5 (initial_counts roster) nsn s4 = Inr (remaining_pools r)"
    by (rule allocate_patients_Inr)
  note p1 = sd_moves_pools [OF a] and p5 = phase5_pools [OF c]
  have sd1: "0 \<le> n_step_down_patients s1" using sd_moves_nonneg [OF a] assms(5) by simp
  have sd4: "n_step_down_patients s4 = n_step_down_patients s1" using b by (rule unit_moves_step_down)
  note nn = unit_moves_pools_nonneg [OF b] and ls = unit_moves_lockstep [OF b]
  from p1 p5 sd1 sd4 nn ls assms(2-4) show ?thesis
    by (auto simp add: remaining_units_def)
qed

theorem pool_counters_nonneg_witness:
  "allocate_patients ward 30 10 10 10 10 10 3 20 =
     Inr (finish (initial_counts ward) (initial_stepdown_counts ward) ward_after) \<and>
   (0::int) \<le> 10 \<and> (0::int) \<le> 3 \<and> (10::int) + 10 + 10 \<le> 30 \<and>
   0 \<le> n_A_new_patients ward_after \<and> 0 \<le> n_B_new_patients ward_after \<and>
   0 \<le> n_N_new_patients ward_after \<and> 0 \<le> n_step_down_patients ward_after \<and>
   0 \<le> n_total_new_patients ward_after"
  using pool_counters_nonneg [OF ward_run] ward_run by simp


text \<open>
  C5. The total pool moves in lockstep with the team pools: whenever \<open>allocate_patients\<close>
  returns, the decrease of \<open>n_total_new_patients\<close> across the call equals the sum of the
  decreases of \<open>n_A_new_patients\<close>, \<open>n_B_new_patients\<close> and \<open>n_N_new_patients\<close>. This holds
  for every input; step-down units never touch the total pool.
\<close>

theorem total_pool_lockstep:
  assumes "allocate_patients roster nt nA nB nN nsn mn nsd m = Inr r"
  shows "nt - n_total_new_patients (remaining_pools r) =
           (nA - n_A_new_patients (remaining_pools r)) +
           (nB - n_B_new_patients (remaining_pools r)) +
           (nN - n_N_new_patients (remaining_pools r))"
proof -
  from assms obtain s1 s4 where
    a: "sd_moves (initial_stepdown_counts roster) (initial_state roster nt nA nB nN nsd) s1"
    and b: "unit_moves m nsn s1 s4"
    and c: "phase5 (initial_counts roster) nsn s4 = Inr (remaining_pools r)"
    by (rule allocate_patients_Inr)
  note p1 = sd_moves_pools [OF a] and p4 = unit_moves_lockstep [OF b] and p5 = phase5_pools [OF c]
  from p1 p4 p5 show ?thesis by (simp add: remaining_units_def)
qed

theorem total_pool_lockstep_witness:
  "allocate_patients ward 30 10 10 10 10 10 3 20 =
     Inr (finish (initial_counts ward) (initial_stepdown_counts ward) ward_after) \<and>
   30 - n_total_new_patients ward_after =
     (10 - n_A_new_patients ward_after) + (10 - n_B_new_patients ward_after) +
     (10 - n_N_new_patients ward_after)"
  using total_pool_lockstep [OF ward_run] ward_run by simp

text \<open>
  C6. Correction idempotence: for a roster with unique names, a new worker whose total
  before the call is at least \<open>new_start_number\<close> has the same total when the call returns.
\<close>

theorem correction_idempotence:
  assumes "distinct (map name roster)" and "i < length roster"
    and "is_new (roster ! i)" and "nsn \<le> total_patients (roster ! i)"
  shows "\<exists>r. allocate_patients roster nt nA nB nN nsn mn nsd m = Inr r \<and>
           total_patients (physicians (remaining_pools r) ! i) = total_patients (roster ! i)"
proof -
  from assms(1) obtain s1 s4 where
    a: "sd_moves (initial_stepdown_counts roster) (initial_state roster nt nA nB nN nsd) s1"
    and b: "unit_moves m nsn s1 s4"
    and c: "allocate_patients roster nt nA nB nN nsn mn nsd m =
           Inr (finish (initial_counts roster) (initial_stepdown_counts roster) s4)"
    by (rule allocate_patients_distinct)
  have i1: "i < length (physicians s1)" using sd_moves_length [OF a] assms(2) by simp
  have w1: "is_new (physicians s1 ! i) = is_new (roster ! i)"
    and t1: "total_patients (physicians s1 ! i) = total_patients (roster ! i)"
    using same_but_step_down_fields [OF sd_moves_same [OF a]] assms(2) by simp_all
  have "is_new (physicians s1 ! i) \<and> nsn \<le> total_patients (physicians s1 ! i) \<longrightarrow>
          total_patients (physicians s4 ! i) = total_patients (physicians s1 ! i)"
    using unit_moves_total_bounds [OF b i1] by blast
  with w1 t1 assms(3,4) have "total_patients (physicians s4 ! i) = total_patients (roster ! i)"
    by simp
  with c show ?thesis by simp
qed

theorem correction_idempotence_witness:
  "distinct (map name ward) \<and> 4 < length ward \<and> is_new (ward ! 4) \<and>
   10 \<le> total_patients (ward ! 4) \<and>
   allocate_patients ward 30 10 10 10 10 10 3 20 =
     Inr (finish (initial_counts ward) (initial_stepdown_counts ward) ward_after) \<and>
   total_patients (physicians ward_after ! 4) = total_patients (ward ! 4)"
proof -
  have h: "distinct (map name ward)" "4 < length ward" "is_new (ward ! 4)"
    "10 \<le> total_patients (ward ! 4)"
    by (simp_all add: ward_def doc_def)
  from correction_idempotence [OF h, of 30 10 10 10 10 3 20] h show ?thesis
    by (simp add: ward_run)
qed

text \<open>
  C7. No exception: when no worker's \<open>total_patients\<close> is negative, the call returns a
  result. No subscript misses its key, no loop runs forever, and \<open>remove_patient\<close> in
  Phase 5 is only called on a worker with at least one patient. In the witness Phase 5
  does remove patients: the first of two workers with the same name goes from 15 to 10.
\<close>

theorem no_exception:
  assumes "\<forall>p\<in>set roster. 0 \<le> total_patients p"
  shows "\<exists>r. allocate_patients roster nt nA nB nN nsn mn nsd m = Inr r"
proof -
  obtain s1 s4 where
    run: "allocate_patients roster nt nA nB nN nsn mn nsd m =
           (case phase5 (initial_counts roster) nsn s4 of
              Inl e \<Rightarrow> Inl e
            | Inr s5 \<Rightarrow>
                Inr (finish (initial_counts roster) (initial_stepdown_counts roster) s5))"
    by (rule allocate_patients_run)
  have "\<forall>k v. initial_counts roster k = Some v \<longrightarrow> 0 \<le> v"
    using initial_counts_value assms by blast
  then obtain s5 where "phase5 (initial_counts roster) nsn s4 = Inr s5"
    using phase5_ok by blast
  with run show ?thesis by simp
qed

theorem no_exception_witness:
  "0 \<le> total_patients (twins ! 0) \<and> 0 \<le> total_patients (twins ! 1) \<and>
   (\<exists>r. allocate_patients twins 0 0 0 0 10 10 0 20 = Inr r) \<and>
   final_totals (allocate_patients twins 0 0 0 0 10 10 0 20) = Inr [10, 10]"
proof -
  have h: "\<forall>p\<in>set twins. 0 \<le> total_patients p" by (simp add: twins_def doc_def)
  have v: "final_totals (allocate_patients twins 0 0 0 0 10 10 0 20) = Inr [10, 10]"
    by code_simp
  from no_exception [OF h] v show ?thesis by (simp add: twins_def doc_def)
qed

text \<open>
  C8. Step-down single gain: for a roster with unique names the call returns and no
  worker's \<open>step_down_patients\<close> has grown by more than 1.
\<close>

theorem step_down_single_gain:
  assumes "distinct (map name roster)"
  shows "\<exists>r. allocate_patients roster nt nA nB nN nsn mn nsd m = Inr r \<and>
           (\<forall>i<length roster.
              step_down_patients (physicians (remaining_pools r) ! i)
                - step_down_patients (roster ! i) \<le> 1)"
proof -
  let ?isd = "initial_stepdown_counts roster"
  let ?s0 = "initial_state roster nt nA nB nN nsd"
  from assms obtain s1 s4 where
    a: "sd_moves ?isd ?s0 s1"
    and b: "unit_moves m nsn s1 s4"
    and c: "allocate_patients roster nt nA nB nN nsn mn nsd m =
           Inr (finish (initial_counts roster) ?isd s4)"
    by (rule allocate_patients_distinct)
  have len1: "length (physicians s1) = length roster" using sd_moves_length [OF a] by simp
  have start: "\<forall>j<length (physicians ?s0).
      step_down_patients (physicians ?s0 ! j) - dict_get ?isd (name (physicians ?s0 ! j)) 0 \<le> 1"
    using initial_stepdown_counts_distinct [OF assms] by (simp add: dict_get_def)
  note g1 = sd_moves_gain [OF a start]
  have "step_down_patients (physicians s4 ! i) - step_down_patients (roster ! i) \<le> 1"
    if i: "i < length roster" for i
  proof -
    have i1: "i < length (physicians s1)" using i len1 by simp
    have "name (physicians s1 ! i) = name (roster ! i)"
      using same_but_step_down_fields(1) [OF sd_moves_same [OF a]] i by simp
    then have "dict_get ?isd (name (physicians s1 ! i)) 0 = step_down_patients (roster ! i)"
      using initial_stepdown_counts_distinct [OF assms i] by (simp add: dict_get_def)
    with g1 i1 have "step_down_patients (physicians s1 ! i) - step_down_patients (roster ! i) \<le> 1"
      by auto
    moreover have "step_down_patients (physicians s4 ! i) = step_down_patients (physicians s1 ! i)"
      using i1 by (rule same_but_total_fields(6) [OF unit_moves_same [OF b]])
    ultimately show ?thesis by simp
  qed
  with c show ?thesis by simp
qed

theorem step_down_single_gain_witness:
  "distinct (map name ward) \<and>
   allocate_patients ward 30 10 10 10 10 10 3 20 =
     Inr (finish (initial_counts ward) (initial_stepdown_counts ward) ward_after) \<and>
   step_down_patients (physicians ward_after ! 0) - step_down_patients (ward ! 0) \<le> 1 \<and>
   step_down_patients (physicians ward_after ! 4) - step_down_patients (ward ! 4) \<le> 1"
proof -
  have h: "distinct (map name ward)" by (simp add: ward_def doc_def)
  have "(0::nat) < length ward" "(4::nat) < length ward" by (simp_all add: ward_def)
  with step_down_single_gain [OF h, of 30 10 10 10 10 10 3 20] h show ?thesis
    by (simp add: ward_run)
qed

text \<open>
  C9. Onboarding exactness, on the run of \<open>allocate_patients\<close>: a new worker with no
  patients in the roster, a start number of 10, a maximum of at least 10 and at least 10
  units in the pool of its own team when the loop of Phase 3 reaches it still has no
  patients at that moment, has exactly 10 when its own loop ends, and has exactly 10 when
  Phase 3 ends; Phase 3 is the turns before it, its own turn and the turns after it, and
  its result is the state that the call passes on to Phase 4. Phase 3 leaves no new
  worker above the larger of its total before and the start number.
\<close>

theorem onboarding_exactness:
  assumes "i < length roster" and "is_new (roster ! i)"
    and "total_patients (roster ! i) = 0" and "10 \<le> m"
    and "s2 = before_phase3 roster nt nA nB nN mn nsd m"
    and "t = phase3_turn 10 m i s2"
    and "(team (roster ! i) = ''A'' \<and> 10 \<le> n_A_new_patients t) \<or>
         (team (roster ! i) = ''B'' \<and> 10 \<le> n_B_new_patients t) \<or>
         (team (roster ! i) = ''N'' \<and> 10 \<le> n_N_new_patients t)"
  shows "total_patients (physicians t ! i) = 0 \<and>
         total_patients (physicians (phase3_visit 10 m i t) ! i) = 10 \<and>
         total_patients (physicians (phase3 10 m s2) ! i) = 10 \<and>
         phase3 10 m s2 =
           fold (phase3_visit 10 m) [Suc i..<length roster] (phase3_visit 10 m i t) \<and>
         allocate_patients roster nt nA nB nN 10 mn nsd m =
           (case phase4 (initial_counts roster) (team_members ''N'' roster) m (phase3 10 m s2) of
              Inl e \<Rightarrow> Inl e
            | Inr s4 \<Rightarrow>
                (case phase5 (initial_counts roster) 10 s4 of
                   Inl e \<Rightarrow> Inl e
                 | Inr s5 \<Rightarrow>
                     Inr (finish (initial_counts roster) (initial_stepdown_counts roster) s5))) \<and>
         (\<forall>n u j. j < length (physicians u) \<and> is_new (physicians u ! j) \<longrightarrow>
            total_patients (physicians (phase3 n m u) ! j)
              \<le> max (total_patients (physicians u ! j)) n)"
proof -
  note b = before_phase3_keeps_new [OF assms(1,2), of nt nA nB nN mn nsd m, folded assms(5)]
  have i2: "i < length (physicians s2)" using b(1) assms(1) by simp
  have len_t: "length (physicians t) = length (physicians s2)"
    unfolding assms(6) phase3_turn_def
    using i2 by (intro fold_phase3_length) (simp add: in_roster_def)
  have same_t: "physicians t ! i = physicians s2 ! i"
    unfolding assms(6) phase3_turn_def by (rule fold_phase3_other) simp
  have it: "i < length (physicians t)" using len_t i2 by simp
  have tot_t: "total_patients (physicians t ! i) = 0" using same_t b(4) assms(3) by simp
  have new_t: "is_new (physicians t ! i)" using same_t b(2) by simp
  have team_t: "team (physicians t ! i) = team (roster ! i)" using same_t b(3) by simp
  from assms(7) have "10 \<le> pool_count PoolA t \<or> 10 \<le> pool_count PoolB t
                        \<or> 10 \<le> pool_count PoolN t"
    by auto
  then obtain pl where "10 \<le> pool_count pl t" by blast
  then have "total_patients (physicians (fill_loop m i 10 t) ! i)
               = total_patients (physicians t ! i) + 10"
    using it tot_t assms(4) by (intro fill_loop_exact [where pl = pl]) simp_all
  with new_t tot_t have visit: "total_patients (physicians (phase3_visit 10 m i t) ! i) = 10"
    by (simp add: phase3_visit_def Let_def)
  have split: "phase3 10 m s2 =
          fold (phase3_visit 10 m) [Suc i..<length (physicians s2)] (phase3_visit 10 m i t)"
    unfolding assms(6) using i2 by (rule phase3_split)
  then have split': "phase3 10 m s2 =
          fold (phase3_visit 10 m) [Suc i..<length roster] (phase3_visit 10 m i t)"
    using b(1) by simp
  note split
  moreover have "physicians (fold (phase3_visit 10 m) [Suc i..<length (physicians s2)]
                    (phase3_visit 10 m i t)) ! i = physicians (phase3_visit 10 m i t) ! i"
    by (rule fold_phase3_other) simp
  ultimately have whole: "total_patients (physicians (phase3 10 m s2) ! i) = 10"
    using visit by simp
  have run: "allocate_patients roster nt nA nB nN 10 mn nsd m =
           (case phase4 (initial_counts roster) (team_members ''N'' roster) m (phase3 10 m s2) of
              Inl e \<Rightarrow> Inl e
            | Inr s4 \<Rightarrow>
                (case phase5 (initial_counts roster) 10 s4 of
                   Inl e \<Rightarrow> Inl e
                 | Inr s5 \<Rightarrow>
                     Inr (finish (initial_counts roster) (initial_stepdown_counts roster) s5)))"
    unfolding assms(5) by (rule allocate_patients_phase3)
  have bound: "\<forall>n u j. j < length (physicians u) \<and> is_new (physicians u ! j) \<longrightarrow>
            total_patients (physicians (phase3 n m u) ! j)
              \<le> max (total_patients (physicians u ! j)) n"
    using unit_moves_total_bounds [OF phase3_moves] by blast
  from tot_t visit whole split' run bound show ?thesis by blast
qed

theorem onboarding_exactness_witness:
  "2 < length ward \<and> is_new (ward ! 2) \<and> total_patients (ward ! 2) = 0 \<and> (10::int) \<le> 20 \<and>
   team (ward ! 2) = ''N'' \<and>
   10 \<le> n_N_new_patients (phase3_turn 10 20 2 (before_phase3 ward 30 10 10 10 10 3 20)) \<and>
   total_patients
     (physicians (phase3_turn 10 20 2 (before_phase3 ward 30 10 10 10 10 3 20)) ! 2) = 0 \<and>
   total_patients
     (physicians (phase3_visit 10 20 2
        (phase3_turn 10 20 2 (before_phase3 ward 30 10 10 10 10 3 20))) ! 2) = 10 \<and>
   total_patients (physicians (phase3 10 20 (before_phase3 ward 30 10 10 10 10 3 20)) ! 2) = 10 \<and>
   total_patients (physicians (phase3 10 20 (before_phase3 ward 30 10 10 10 10 3 20)) ! 2)
     \<le> max (total_patients (physicians (before_phase3 ward 30 10 10 10 10 3 20) ! 2)) 10"
proof -
  let ?s2 = "before_phase3 ward 30 10 10 10 10 3 20"
  let ?t = "phase3_turn 10 20 2 ?s2"
  have h: "2 < length ward" "is_new (ward ! 2)" "total_patients (ward ! 2) = 0" "(10::int) \<le> 20"
    by (simp_all add: ward_def doc_def)
  have tm: "team (ward ! 2) = ''N''" by (simp add: ward_def doc_def)
  have pool: "10 \<le> n_N_new_patients ?t" by code_simp
  have j: "2 < length (physicians ?s2)" "is_new (physicians ?s2 ! 2)" by code_simp+
  from tm pool
  have h7: "(team (ward ! 2) = ''A'' \<and> 10 \<le> n_A_new_patients ?t) \<or>
            (team (ward ! 2) = ''B'' \<and> 10 \<le> n_B_new_patients ?t) \<or>
            (team (ward ! 2) = ''N'' \<and> 10 \<le> n_N_new_patients ?t)"
    by simp
  from onboarding_exactness [OF h refl refl h7] h tm pool j show ?thesis by blast
qed

text \<open>
  C10. The flag \<open>is_working\<close> is read by Phase 1 only: Phases 2, 3 and 4 run on a roster
  whose flags \<open>is_working\<close> are set in any way give the result they give on the roster
  itself, with the flags set in that way. In the ward, physician \<open>b\<close> of Team B is neither
  working nor new and is at 7 with a minimum of 10: Phase 2 brings it to 10, and Phase 4
  brings it from 10 to 14.
\<close>

theorem is_working_only_phase1:
  "phase2 mn m (with_working w s) = with_working w (phase2 mn m s) \<and>
   phase3 n m (with_working w s) = with_working w (phase3 n m s) \<and>
   phase4 ic (team_members ''N'' (physicians s)) m (with_working w s)
     = on_result (with_working w) (phase4 ic (team_members ''N'' (physicians s)) m s) \<and>
   \<not> is_working (ward ! 1) \<and> \<not> is_new (ward ! 1) \<and> team (ward ! 1) = ''B'' \<and>
   total_patients (ward ! 1) \<le> 10 - 2 \<and>
   map total_patients (physicians (phase2 10 20 (ward_phase1 30 10 10 10 3)))
     = [10, 10, 0, 12, 12] \<and>
   map total_patients (physicians (phase3 10 20 (phase2 10 20 (ward_phase1 30 10 10 10 3))))
     = [10, 10, 10, 12, 12] \<and>
   on_result (\<lambda>s. map total_patients (physicians s))
     (phase4 (initial_counts ward) (team_members ''N'' ward) 20
        (phase3 10 20 (phase2 10 20 (ward_phase1 30 10 10 10 3))))
     = Inr [12, 14, 10, 18, 12]"
proof -
  have "phase2 mn m (with_working w s) = with_working w (phase2 mn m s)"
    by (rule phase2_with_working)
  moreover have "phase3 n m (with_working w s) = with_working w (phase3 n m s)"
    by (rule phase3_with_working)
  moreover have "phase4 ic (team_members ''N'' (physicians s)) m (with_working w s)
     = on_result (with_working w) (phase4 ic (team_members ''N'' (physicians s)) m s)"
    by (rule phase4_with_working) (rule in_roster_team)
  moreover have "\<not> is_working (ward ! 1) \<and> \<not> is_new (ward ! 1) \<and> team (ward ! 1) = ''B'' \<and>
      total_patients (ward ! 1) \<le> 10 - 2"
    by (simp add: ward_def doc_def)
  moreover have "map total_patients (physicians (phase2 10 20 (ward_phase1 30 10 10 10 3)))
     = [10, 10, 0, 12, 12]"
    by code_simp
  moreover have "map total_patients
       (physicians (phase3 10 20 (phase2 10 20 (ward_phase1 30 10 10 10 3))))
     = [10, 10, 10, 12, 12]"
    by code_simp
  moreover have "on_result (\<lambda>s. map total_patients (physicians s))
     (phase4 (initial_counts ward) (team_members ''N'' ward) 20
        (phase3 10 20 (phase2 10 20 (ward_phase1 30 10 10 10 3))))
     = Inr [12, 14, 10, 18, 12]"
    by code_simp
  ultimately show ?thesis by blast
qed

end
